theory Spec2Isabelle
  imports Complex_Main "HOL-Library.AList" "HOL-Library.FSet" "HOL-Library.Multiset"
begin

section \<open>JavaScript values and built-ins used by the inference core\<close>

text \<open>
  The values \<open>inferTypeFromValue\<close> can receive. \<open>JSON.parse\<close> produces every
  constructor except \<open>JUndefined\<close>, which stands for the JavaScript value
  \<open>undefined\<close> (the code tests \<open>v !== undefined\<close>). An object is the list
  \<open>Object.entries\<close> returns for it. The payload of a number is never inspected.
\<close>

datatype JSValue =
    JNull
  | JUndefined
  | JString string
  | JNumber real
  | JBoolean bool
  | JArray "JSValue list"
  | JObject "(string \<times> JSValue) list"

text \<open>
  The options of the inference. They come from the command line through
  \<open>numericOrDefault\<close>, which yields any finite number.
\<close>

record InferOptions =
  detectDatesFromIsoStrings :: bool
  stringEnumMinUniqueValues :: real
  stringEnumMaxUniqueValues :: real

text \<open>
  The state of one call of the renderer: the declarations emitted so far, the memo
  from object nodes to their names and the set of names in use. The memo of the
  code is keyed by the identity of the node object; a node of a tree is identified
  here by its path from the root.
\<close>

datatype PathStep = AtField string | AtItems | AtMember nat

record RenderState =
  namedTypeDefinitions :: "string list"
  objectNodeToTypeName :: "(PathStep list \<times> string) list"
  usedTypeNames :: "string list"

text \<open>A value \<open>JSON.parse\<close> can return: no \<open>undefined\<close> anywhere inside.\<close>

fun isJsonValue :: "JSValue \<Rightarrow> bool" where
  "isJsonValue JUndefined = False"
| "isJsonValue (JArray vs) = (\<forall>v \<in> set vs. isJsonValue v)"
| "isJsonValue (JObject es) = (\<forall>(k, v) \<in> set es. isJsonValue v)"
| "isJsonValue _ = True"

text \<open>
  A JavaScript \<open>Set\<close> iterates in insertion order and ignores a value it already
  holds: \<open>[...new Set(xs)]\<close> is \<open>Set_from xs\<close>.
\<close>

definition Set_add :: "'a list \<Rightarrow> 'a \<Rightarrow> 'a list" where
  "Set_add s x = (if x \<in> set s then s else s @ [x])"

definition Set_from :: "'a list \<Rightarrow> 'a list" where
  "Set_from xs = foldl Set_add [] xs"

text \<open>
  A JavaScript \<open>Map\<close> is an association list in insertion order with distinct keys:
  \<open>get\<close> is \<open>map_of\<close>, \<open>set\<close> replaces the value of a key in place or appends
  a new entry, \<open>size\<close> is \<open>length\<close>.
\<close>

definition Map_set :: "'k \<Rightarrow> 'v \<Rightarrow> ('k \<times> 'v) list \<Rightarrow> ('k \<times> 'v) list" where
  "Map_set k v m = AList.update k v m"

text \<open>\<open>Array.prototype.join\<close>.\<close>

fun Array_join :: "string \<Rightarrow> string list \<Rightarrow> string" where
  "Array_join sep [] = []"
| "Array_join sep [x] = x"
| "Array_join sep (x # y # ys) = x @ sep @ Array_join sep (y # ys)"

text \<open>
  \<open>JSON.stringify\<close> on a string (\<open>QuoteJSONString\<close>) and on an array of strings.
  Characters are the 8-bit \<open>char\<close>s of HOL: the control characters below 0x20 are
  escaped, the double quote and the backslash are escaped, the rest is copied.
\<close>

definition hexDigit :: "nat \<Rightarrow> char" where
  "hexDigit n = (''0123456789abcdef'') ! (n mod 16)"

definition JSON_escape :: "char \<Rightarrow> string" where
  "JSON_escape c =
     (if c = CHR 0x08 then [CHR 0x5C, CHR ''b'']
      else if c = CHR 0x09 then [CHR 0x5C, CHR ''t'']
      else if c = CHR 0x0A then [CHR 0x5C, CHR ''n'']
      else if c = CHR 0x0C then [CHR 0x5C, CHR ''f'']
      else if c = CHR 0x0D then [CHR 0x5C, CHR ''r'']
      else if c = CHR 0x22 then [CHR 0x5C, CHR 0x22]
      else if c = CHR 0x5C then [CHR 0x5C, CHR 0x5C]
      else if (of_char c :: nat) < 0x20
        then [CHR 0x5C, CHR ''u'', CHR ''0'', CHR ''0'',
              hexDigit ((of_char c :: nat) div 16), hexDigit (of_char c :: nat)]
      else [c])"

definition JSON_stringify_string :: "string \<Rightarrow> string" where
  "JSON_stringify_string s = [CHR 0x22] @ concat (map JSON_escape s) @ [CHR 0x22]"

definition JSON_stringify_array :: "string list \<Rightarrow> string" where
  "JSON_stringify_array xs = ''['' @ Array_join '','' (map JSON_stringify_string xs) @ '']''"

section \<open>The type node model\<close>

text \<open>
  A node is a JavaScript object with a \<open>kind\<close> tag. A string node carries
  \<open>isDate\<close>, \<open>enumValues\<close> and \<open>sample\<close>, each of which may be absent
  (\<open>None\<close>). The \<open>fields\<close> of an object node are a \<open>Map\<close> from the field name
  to \<open>{ type, required }\<close>.
\<close>

datatype TypeNode =
    AnyT
  | NumberT
  | BooleanT
  | StringT (isDate: "bool option") (enumValues: "string list option") (sample: "string option")
  | ArrayT (items: TypeNode)
  | UnionT (types: "TypeNode list")
  | ObjectT (fields: "(string \<times> TypeNode \<times> bool) list")

type_synonym FieldMap = "(string \<times> TypeNode \<times> bool) list"

datatype Kind = KAny | KNumber | KBoolean | KString | KArray | KUnion | KObject

fun kind :: "TypeNode \<Rightarrow> Kind" where
  "kind AnyT = KAny"
| "kind NumberT = KNumber"
| "kind BooleanT = KBoolean"
| "kind (StringT d e s) = KString"
| "kind (ArrayT t) = KArray"
| "kind (UnionT ts) = KUnion"
| "kind (ObjectT fs) = KObject"

text \<open>\<open>!!x\<close> for an optional boolean: absent (\<open>undefined\<close>) is falsy.\<close>

fun truthy :: "bool option \<Rightarrow> bool" where
  "truthy None = False"
| "truthy (Some b) = b"

text \<open>\<open>xs || []\<close> for an optional array: an array, even an empty one, is truthy.\<close>

fun orEmpty :: "'a list option \<Rightarrow> 'a list" where
  "orEmpty None = []"
| "orEmpty (Some xs) = xs"

section \<open>Structural equality\<close>

text \<open>
  \<open>areTypesEqual\<close>. The loop of the union case is \<open>areTypesEqual_every\<close>
  (\<open>a.types.every((t, i) => areTypesEqual(t, b.types[i]))\<close>, reached only after the
  lengths were found equal, so that \<open>b.types[i]\<close> exists), the loop of the object
  case is \<open>areTypesEqual_fields\<close>.
\<close>

fun areTypesEqual :: "TypeNode \<Rightarrow> TypeNode \<Rightarrow> bool"
  and areTypesEqual_every :: "TypeNode list \<Rightarrow> TypeNode list \<Rightarrow> bool"
  and areTypesEqual_fields :: "FieldMap \<Rightarrow> FieldMap \<Rightarrow> bool"
where
  "areTypesEqual AnyT b = (kind b = KAny)"
| "areTypesEqual NumberT b = (kind b = KNumber)"
| "areTypesEqual BooleanT b = (kind b = KBoolean)"
| "areTypesEqual (StringT d e s) b =
     (case b of
        StringT d' e' s' \<Rightarrow>
          truthy d = truthy d' \<and>
          JSON_stringify_array (orEmpty e) = JSON_stringify_array (orEmpty e')
      | _ \<Rightarrow> False)"
| "areTypesEqual (ArrayT x) b =
     (case b of ArrayT y \<Rightarrow> areTypesEqual x y | _ \<Rightarrow> False)"
| "areTypesEqual (UnionT ts) b =
     (case b of
        UnionT us \<Rightarrow> length ts = length us \<and> areTypesEqual_every ts us
      | _ \<Rightarrow> False)"
| "areTypesEqual (ObjectT fa) b =
     (case b of
        ObjectT fb \<Rightarrow>
          (if length fa \<noteq> length fb then False else areTypesEqual_fields fa fb)
      | _ \<Rightarrow> False)"
| "areTypesEqual_every [] us = True"
| "areTypesEqual_every (t # ts) [] = False"
| "areTypesEqual_every (t # ts) (u # us) = (areTypesEqual t u \<and> areTypesEqual_every ts us)"
| "areTypesEqual_fields [] fb = True"
| "areTypesEqual_fields ((k, ta, ra) # rest) fb =
     (case map_of fb k of
        None \<Rightarrow> False
      | Some (tb, rb) \<Rightarrow>
          (if ra \<noteq> rb \<or> \<not> areTypesEqual ta tb then False
           else areTypesEqual_fields rest fb))"

section \<open>Unification and normalization\<close>

text \<open>
  \<open>mergeStringLiteralSets\<close>: both sets absent gives absent, otherwise the values of
  \<open>a\<close> followed by the new values of \<open>b\<close>.
\<close>

definition mergeStringLiteralSets :: "string list option \<Rightarrow> string list option \<Rightarrow> string list option" where
  "mergeStringLiteralSets a b =
     (if a = None \<and> b = None then None else Some (Set_from (orEmpty a @ orEmpty b)))"

text \<open>
  \<open>normalizeUnionType\<close>, applied to the \<open>types\<close> of the union it is given.
  \<open>normalize_push\<close> is the body of its loop: the members of a nested union are
  appended as they are, any other member is appended unless \<open>flat\<close> holds an equal
  one.
\<close>

definition normalize_push :: "TypeNode list \<Rightarrow> TypeNode \<Rightarrow> TypeNode list" where
  "normalize_push flat t =
     (if kind t = KUnion then flat @ types t
      else if \<not> list_ex (\<lambda>e. areTypesEqual e t) flat then flat @ [t]
      else flat)"

definition normalizeUnionType :: "TypeNode list \<Rightarrow> TypeNode" where
  "normalizeUnionType ts =
     (if list_ex (\<lambda>t. kind t = KAny) ts then AnyT
      else let flat = foldl normalize_push [] ts
           in if length flat = 1 then hd flat else UnionT flat)"

text \<open>
  \<open>unifyTypes\<close>, test by test as in the code. The selectors \<open>types\<close>,
  \<open>items\<close>, \<open>fields\<close>, \<open>isDate\<close> and \<open>enumValues\<close> are read only after
  the test of the \<open>kind\<close> that makes them defined. The loop of the object case runs over
  the keys of \<open>a\<close> followed by the new keys of \<open>b\<close> and stores one entry per key.
\<close>

lemma size_field_lt: "map_of fs k = Some (t, r) \<Longrightarrow> size t < size (ObjectT fs)"
  by (induction fs) (auto split: if_splits)

function unifyTypes :: "TypeNode \<Rightarrow> TypeNode \<Rightarrow> TypeNode" where
  "unifyTypes a b =
    (if areTypesEqual a b then a
     else if kind a = KAny \<or> kind b = KAny then AnyT
     else if kind a = KUnion then normalizeUnionType (types a @ [b])
     else if kind b = KUnion then normalizeUnionType (a # types b)
     else if kind a = KString \<and> kind b = KString then
       StringT (Some (truthy (isDate a) \<or> truthy (isDate b)))
               (mergeStringLiteralSets (enumValues a) (enumValues b)) None
     else if kind a = KArray \<and> kind b = KArray then
       ArrayT (unifyTypes (items a) (items b))
     else if kind a = KObject \<and> kind b = KObject then
       ObjectT (foldl
         (\<lambda>unified key.
            case map_of (fields a) key of
              Some (ta, ra) \<Rightarrow>
                (case map_of (fields b) key of
                   Some (tb, rb) \<Rightarrow> Map_set key (unifyTypes ta tb, ra \<and> rb) unified
                 | None \<Rightarrow> Map_set key (ta, False) unified)
            | None \<Rightarrow>
                (case map_of (fields b) key of
                   Some (tb, rb) \<Rightarrow> Map_set key (tb, False) unified
                 | None \<Rightarrow> unified))
         [] (Set_from (map fst (fields a) @ map fst (fields b))))
     else normalizeUnionType [a, b])"
  by pat_completeness auto
termination
proof (relation "measure (\<lambda>(a, b). size a)")
  show "wf (measure (\<lambda>(a, b). size a))" by simp
next
  fix a b :: TypeNode
  assume "kind a = KArray \<and> kind b = KArray"
  then show "((items a, items b), a, b) \<in> measure (\<lambda>(a, b). size a)"
    by (cases a) auto
next
  fix a b :: TypeNode and x xa xb y xc xd ya
  assume "kind a = KObject \<and> kind b = KObject" "map_of (fields a) y = Some xb" "(xc, xd) = xb"
  then show "((xc, x), a, b) \<in> measure (\<lambda>(a, b). size a)"
    using size_field_lt[of "fields a" y xc xd] by (cases a) auto
qed

declare unifyTypes.simps [simp del]

text \<open>
  The exceptions the inference can meet. \<open>unifyTypesMany\<close> is
  \<open>nodes.reduce((a, b) => unifyTypes(a, b))\<close>: with no initial value, \<open>reduce\<close>
  throws a \<open>TypeError\<close> on an empty array. A call for which the call stack of the
  host has no room left throws a \<open>RangeError\<close>.
\<close>

datatype JSError = TypeError | RangeError

fun unifyTypesMany :: "TypeNode list \<Rightarrow> JSError + TypeNode" where
  "unifyTypesMany [] = Inl TypeError"
| "unifyTypesMany (n # ns) = Inr (foldl unifyTypes n ns)"

section \<open>Inference\<close>

text \<open>
  The regular expressions of the code, as matchers. \<open>isDigit\<close> is \<open>\d\<close>,
  \<open>isWordChar\<close> is \<open>[A-Za-z0-9_]\<close>; \<open>digits n\<close> consumes \<open>\d{n}\<close> and
  \<open>oneOf cs\<close> one character of \<open>cs\<close>, both returning the rest of the input.
  \<open>isIsoLikeDateString\<close> is the test of
  \<open>^\d{4}-\d{2}-\d{2}(?:[ T]\d{2}:\d{2}(?::\d{2}(?:\.\d{1,3})?)?(?:Z|[+-]\d{2}:\d{2})?)?$\<close>:
  \<open>matchDate\<close> the date, \<open>matchHourMinute\<close> the hours and minutes,
  \<open>matchSecondsEnd\<close> the optional seconds and fraction followed by
  \<open>matchZoneEnd\<close>, the optional zone and the end of the input.
\<close>

definition isDigit :: "char \<Rightarrow> bool" where
  "isDigit c = (c \<in> set ''0123456789'')"

definition isWordChar :: "char \<Rightarrow> bool" where
  "isWordChar c =
     (c \<in> set ''ABCDEFGHIJKLMNOPQRSTUVWXYZabcdefghijklmnopqrstuvwxyz0123456789_'')"

fun digits :: "nat \<Rightarrow> string \<Rightarrow> string option" where
  "digits 0 s = Some s"
| "digits (Suc n) [] = None"
| "digits (Suc n) (c # s) = (if isDigit c then digits n s else None)"

fun oneOf :: "string \<Rightarrow> string \<Rightarrow> string option" where
  "oneOf cs [] = None"
| "oneOf cs (c # s) = (if c \<in> set cs then Some s else None)"

definition matchDate :: "string \<Rightarrow> string option" where
  "matchDate s =
     Option.bind (digits 4 s) (\<lambda>s. Option.bind (oneOf ''-'' s) (\<lambda>s.
     Option.bind (digits 2 s) (\<lambda>s. Option.bind (oneOf ''-'' s) (digits 2))))"

definition matchHourMinute :: "string \<Rightarrow> string option" where
  "matchHourMinute s =
     Option.bind (oneOf '' T'' s) (\<lambda>s. Option.bind (digits 2 s) (\<lambda>s.
     Option.bind (oneOf '':'' s) (digits 2)))"

definition matchZoneEnd :: "string \<Rightarrow> bool" where
  "matchZoneEnd s =
     (s = [] \<or> s = ''Z'' \<or>
      Option.bind (oneOf ''+-'' s) (\<lambda>s. Option.bind (digits 2 s) (\<lambda>s.
      Option.bind (oneOf '':'' s) (digits 2))) = Some [])"

definition matchSecondsEnd :: "string \<Rightarrow> bool" where
  "matchSecondsEnd s =
     (matchZoneEnd s \<or>
      (case Option.bind (oneOf '':'' s) (digits 2) of
         None \<Rightarrow> False
       | Some r \<Rightarrow>
           matchZoneEnd r \<or>
           (case oneOf ''.'' r of
              None \<Rightarrow> False
            | Some f \<Rightarrow>
                list_ex (\<lambda>n. case digits n f of None \<Rightarrow> False | Some z \<Rightarrow> matchZoneEnd z)
                  [1, 2, 3])))"

definition isIsoLikeDateString :: "string \<Rightarrow> bool" where
  "isIsoLikeDateString s =
     (case matchDate s of
        None \<Rightarrow> False
      | Some r \<Rightarrow>
          r = [] \<or> (case matchHourMinute r of None \<Rightarrow> False | Some r' \<Rightarrow> matchSecondsEnd r'))"

text \<open>
  \<open>typeof v === "string"\<close>, and \<open>String(v)\<close>, which the code applies only to the
  elements of an array that \<open>arrayContainsOnlyStrings\<close> accepted: on a string it is the
  string itself (the other equation is never reached). \<open>isTokenString\<close> is the test of
  \<open>^[A-Za-z0-9_-]+$\<close>.
\<close>

fun isStringValue :: "JSValue \<Rightarrow> bool" where
  "isStringValue (JString s) = True"
| "isStringValue _ = False"

definition arrayContainsOnlyStrings :: "JSValue list \<Rightarrow> bool" where
  "arrayContainsOnlyStrings arr = list_all isStringValue arr"

fun String_conv :: "JSValue \<Rightarrow> string" where
  "String_conv (JString s) = s"
| "String_conv _ = []"

definition isTokenString :: "string \<Rightarrow> bool" where
  "isTokenString s = (s \<noteq> [] \<and> list_all (\<lambda>c. isWordChar c \<or> c = CHR ''-'') s)"

definition shouldUseStringEnumForArray :: "JSValue list \<Rightarrow> InferOptions \<Rightarrow> bool" where
  "shouldUseStringEnumForArray stringsArray options =
     (let unique = Set_from (map String_conv stringsArray)
      in if real (length unique) < stringEnumMinUniqueValues options \<or>
            real (length unique) > stringEnumMaxUniqueValues options
         then False
         else list_all (\<lambda>s. length s > 0 \<and> length s \<le> 20 \<and> isTokenString s) unique)"

text \<open>
  \<open>inferTypeFromValue\<close>. \<open>inferTypeFromValue_map\<close> is
  \<open>value.map((v) => inferTypeFromValue(v, options))\<close>, \<open>inferTypeFromValue_entries\<close>
  is the loop over \<open>Object.entries(value)\<close> that fills the \<open>fields\<close> map. An
  error of a call inside propagates, as an exception does.
\<close>

fun inferTypeFromValue :: "JSValue \<Rightarrow> InferOptions \<Rightarrow> JSError + TypeNode"
  and inferTypeFromValue_map :: "JSValue list \<Rightarrow> InferOptions \<Rightarrow> JSError + TypeNode list"
  and inferTypeFromValue_entries ::
    "(string \<times> JSValue) list \<Rightarrow> InferOptions \<Rightarrow> FieldMap \<Rightarrow> JSError + FieldMap"
where
  "inferTypeFromValue JNull options = Inr AnyT"
| "inferTypeFromValue (JString s) options =
     Inr (StringT (Some (detectDatesFromIsoStrings options \<and> isIsoLikeDateString s)) None (Some s))"
| "inferTypeFromValue (JNumber n) options = Inr NumberT"
| "inferTypeFromValue (JBoolean b) options = Inr BooleanT"
| "inferTypeFromValue (JArray v) options =
     (if length v = 0 then Inr (ArrayT AnyT)
      else if arrayContainsOnlyStrings v \<and> shouldUseStringEnumForArray v options
        then Inr (ArrayT (StringT None (Some (Set_from (map String_conv v))) None))
      else case inferTypeFromValue_map v options of
             Inl e \<Rightarrow> Inl e
           | Inr itemNodes \<Rightarrow>
               (case unifyTypesMany itemNodes of
                  Inl e \<Rightarrow> Inl e
                | Inr t \<Rightarrow> Inr (ArrayT t)))"
| "inferTypeFromValue (JObject es) options =
     (case inferTypeFromValue_entries es options [] of
        Inl e \<Rightarrow> Inl e
      | Inr fs \<Rightarrow> Inr (ObjectT fs))"
| "inferTypeFromValue JUndefined options = Inr AnyT"
| "inferTypeFromValue_map [] options = Inr []"
| "inferTypeFromValue_map (v # vs) options =
     (case inferTypeFromValue v options of
        Inl e \<Rightarrow> Inl e
      | Inr t \<Rightarrow>
          (case inferTypeFromValue_map vs options of
             Inl e \<Rightarrow> Inl e
           | Inr ts \<Rightarrow> Inr (t # ts)))"
| "inferTypeFromValue_entries [] options fs = Inr fs"
| "inferTypeFromValue_entries ((k, v) # rest) options fs =
     (case inferTypeFromValue v options of
        Inl e \<Rightarrow> Inl e
      | Inr t \<Rightarrow> inferTypeFromValue_entries rest options (Map_set k (t, v \<noteq> JUndefined) fs))"


section \<open>Helpers of the renderer\<close>

text \<open>ASCII case mapping, for \<open>toUpperCase\<close> and the case-insensitive patterns.\<close>

definition toUpperAscii :: "char \<Rightarrow> char" where
  "toUpperAscii c =
     (if c \<in> set ''abcdefghijklmnopqrstuvwxyz'' then char_of ((of_char c :: nat) - 32) else c)"

definition toLowerAscii :: "char \<Rightarrow> char" where
  "toLowerAscii c =
     (if c \<in> set ''ABCDEFGHIJKLMNOPQRSTUVWXYZ'' then char_of ((of_char c :: nat) + 32) else c)"

text \<open>\<open>/^[A-Za-z_][A-Za-z0-9_]*$/.test(name)\<close>.\<close>

definition isValidTypescriptIdentifier :: "string \<Rightarrow> bool" where
  "isValidTypescriptIdentifier name =
     (case name of
        [] \<Rightarrow> False
      | c # cs \<Rightarrow> isWordChar c \<and> \<not> isDigit c \<and> list_all isWordChar cs)"

text \<open>\<open>/suffix$/i.test(text)\<close> for a lower-case suffix, and dropping the last characters.\<close>

definition endsWithIgnoreCase :: "string \<Rightarrow> string \<Rightarrow> bool" where
  "endsWithIgnoreCase suffix text =
     (length suffix \<le> length text \<and>
      map toLowerAscii (drop (length text - length suffix) text) = suffix)"

definition dropLast :: "nat \<Rightarrow> string \<Rightarrow> string" where
  "dropLast n text = take (length text - n) text"

definition singularizeWord :: "string \<Rightarrow> string" where
  "singularizeWord text =
     (if endsWithIgnoreCase ''ies'' text then dropLast 3 text @ ''y''
      else if endsWithIgnoreCase ''ses'' text then dropLast 2 text @ ''s''
      else if endsWithIgnoreCase ''xes'' text \<or> endsWithIgnoreCase ''zes'' text \<or>
              endsWithIgnoreCase ''ches'' text \<or> endsWithIgnoreCase ''shes'' text
        then dropLast 2 text
      else if endsWithIgnoreCase ''s'' text \<and> \<not> endsWithIgnoreCase ''ss'' text
        then dropLast 1 text
      else if text = [] then ''Item'' else text)"

definition nameFromJsonKey :: "string \<Rightarrow> bool \<Rightarrow> string" where
  "nameFromJsonKey jsonKey isArrayItem =
     (let baseRaw = (if isArrayItem then singularizeWord (if jsonKey = [] then ''Item'' else jsonKey)
                     else (if jsonKey = [] then ''Model'' else jsonKey))
      in if baseRaw = [] then ''Model''
         else toUpperAscii (hd baseRaw) # tl baseRaw)"

text \<open>The decimal text of a number, for \<open>baseName + n\<close>.\<close>

definition digitChar :: "nat \<Rightarrow> char" where
  "digitChar d = ''0123456789'' ! d"

fun showNat :: "nat \<Rightarrow> string" where
  "showNat n = (if n < 10 then [digitChar n] else showNat (n div 10) @ [digitChar (n mod 10)])"

declare showNat.simps [simp del]

definition readNat :: "string \<Rightarrow> nat" where
  "readNat s = foldl (\<lambda>acc c. 10 * acc + ((of_char c :: nat) - 48)) 0 s"

lemma digitChar_value: "d < 10 \<Longrightarrow> (of_char (digitChar d) :: nat) - 48 = d"
proof -
  assume "d < 10"
  then have "d \<in> {0, 1, 2, 3, 4, 5, 6, 7, 8, 9}" by auto
  then show ?thesis by (auto simp: digitChar_def)
qed

lemma readNat_showNat: "readNat (showNat n) = n"
proof (induction n rule: showNat.induct)
  case (1 n)
  show ?case
  proof (cases "n < 10")
    case True
    then show ?thesis
      by (subst showNat.simps) (simp add: readNat_def digitChar_value)
  next
    case False
    then have "readNat (showNat (n div 10)) = n div 10" using 1 by simp
    then have "readNat (showNat (n div 10) @ [digitChar (n mod 10)]) = 10 * (n div 10) + n mod 10"
      by (simp add: readNat_def digitChar_value)
    then show ?thesis using False by (subst showNat.simps) simp
  qed
qed

lemma showNat_inj: "showNat m = showNat n \<Longrightarrow> m = n"
  by (metis readNat_showNat)

lemma finite_taken_suffixes: "finite {m. baseName @ showNat m \<in> set used}"
proof -
  have "inj (\<lambda>m. baseName @ showNat m)"
    by (auto intro!: injI dest: showNat_inj)
  then have "finite ((\<lambda>m. baseName @ showNat m) -` set used)"
    by (rule finite_vimageI [rotated]) simp
  then show ?thesis by (simp add: vimage_def)
qed

text \<open>The loop \<open>while (usedTypeNames.has(baseName + n)) n++\<close>.\<close>

function nextAvailableSuffix :: "string \<Rightarrow> string list \<Rightarrow> nat \<Rightarrow> nat" where
  "nextAvailableSuffix baseName used n =
     (if baseName @ showNat n \<in> set used then nextAvailableSuffix baseName used (n + 1) else n)"
  by pat_completeness auto
termination
proof (relation "measure (\<lambda>(baseName, used, n). card {m. n \<le> m \<and> baseName @ showNat m \<in> set used})")
  show "wf (measure (\<lambda>(baseName, used, n). card {m. n \<le> m \<and> baseName @ showNat m \<in> set used}))"
    by simp
next
  fix baseName :: string and used :: "string list" and n :: nat
  assume taken: "baseName @ showNat n \<in> set used"
  have fin: "finite {m. n \<le> m \<and> baseName @ showNat m \<in> set used}"
    using finite_taken_suffixes [of baseName used] by (rule rev_finite_subset) auto
  have "n \<in> {m. n \<le> m \<and> baseName @ showNat m \<in> set used}"
    "n \<notin> {m. n + 1 \<le> m \<and> baseName @ showNat m \<in> set used}"
    using taken by auto
  moreover have "{m. n + 1 \<le> m \<and> baseName @ showNat m \<in> set used} \<subseteq>
        {m. n \<le> m \<and> baseName @ showNat m \<in> set used}"
    by auto
  ultimately have "{m. n + 1 \<le> m \<and> baseName @ showNat m \<in> set used} \<subset>
        {m. n \<le> m \<and> baseName @ showNat m \<in> set used}"
    by blast
  then have "card {m. n + 1 \<le> m \<and> baseName @ showNat m \<in> set used} <
             card {m. n \<le> m \<and> baseName @ showNat m \<in> set used}"
    using fin by (rule psubset_card_mono [rotated])
  then show "((baseName, used, n + 1), baseName, used, n)
      \<in> measure (\<lambda>(baseName, used, n). card {m. n \<le> m \<and> baseName @ showNat m \<in> set used})"
    by simp
qed

declare nextAvailableSuffix.simps [simp del]

definition nextAvailableTypeName :: "string \<Rightarrow> RenderState \<Rightarrow> string \<times> RenderState" where
  "nextAvailableTypeName baseName st =
     (if baseName \<notin> set (usedTypeNames st)
      then (baseName, st\<lparr>usedTypeNames := Set_add (usedTypeNames st) baseName\<rparr>)
      else let n = nextAvailableSuffix baseName (usedTypeNames st) 2;
               finalName = baseName @ showNat n
           in (finalName, st\<lparr>usedTypeNames := Set_add (usedTypeNames st) finalName\<rparr>))"

text \<open>
  \<open>Array.prototype.sort\<close> with a comparison function: a stable sort (insertion
  sort, stable as the specification of the language demands).
\<close>

fun insertBy :: "('a \<Rightarrow> 'a \<Rightarrow> int) \<Rightarrow> 'a \<Rightarrow> 'a list \<Rightarrow> 'a list" where
  "insertBy cmp x [] = [x]"
| "insertBy cmp x (y # ys) = (if cmp x y \<le> 0 then x # y # ys else y # insertBy cmp x ys)"

definition Array_sort :: "('a \<Rightarrow> 'a \<Rightarrow> int) \<Rightarrow> 'a list \<Rightarrow> 'a list" where
  "Array_sort cmp xs = foldr (insertBy cmp) xs []"

section \<open>The renderer\<close>

text \<open>
  \<open>renderTypescriptFromTree\<close> and its inner functions, with the state passed
  explicitly. \<open>localeCompare\<close> is \<open>String.prototype.localeCompare\<close>, the collation
  of the host's default locale: it is a parameter of the model. \<open>renderTypeNode_types\<close>
  is \<open>typeNode.types.map(...)\<close> of the union case, \<open>renderTypeNode_fields\<close> is
  the loop over the sorted entries of the object case.
\<close>

definition fieldLine :: "string \<Rightarrow> bool \<Rightarrow> string \<Rightarrow> string" where
  "fieldLine fieldName required tsType =
     (let optional = (if required then '''' else ''?'');
          safeKey = (if isValidTypescriptIdentifier fieldName then fieldName
                     else JSON_stringify_string fieldName)
      in ''  '' @ safeKey @ optional @ '': '' @ tsType @ '';'')"

function renderTypeNode ::
    "(string \<Rightarrow> string \<Rightarrow> int) \<Rightarrow> string \<Rightarrow> RenderState \<Rightarrow> PathStep list \<Rightarrow> TypeNode \<Rightarrow> string \<Rightarrow> bool
     \<Rightarrow> string \<times> RenderState"
  and renderTypeNode_types ::
    "(string \<Rightarrow> string \<Rightarrow> int) \<Rightarrow> string \<Rightarrow> RenderState \<Rightarrow> PathStep list \<Rightarrow> nat \<Rightarrow> TypeNode list
     \<Rightarrow> string \<Rightarrow> bool \<Rightarrow> string list \<times> RenderState"
  and renderTypeNode_fields ::
    "(string \<Rightarrow> string \<Rightarrow> int) \<Rightarrow> string \<Rightarrow> RenderState \<Rightarrow> PathStep list \<Rightarrow> FieldMap \<Rightarrow> string list
     \<Rightarrow> string list \<times> RenderState"
  and renderArrayType ::
    "(string \<Rightarrow> string \<Rightarrow> int) \<Rightarrow> string \<Rightarrow> RenderState \<Rightarrow> PathStep list \<Rightarrow> TypeNode \<Rightarrow> string
     \<Rightarrow> string \<times> RenderState"
  and ensureNamedTypeForObject ::
    "(string \<Rightarrow> string \<Rightarrow> int) \<Rightarrow> string \<Rightarrow> RenderState \<Rightarrow> PathStep list \<Rightarrow> TypeNode \<Rightarrow> string \<Rightarrow> bool
     \<Rightarrow> string \<times> RenderState"
where
  "renderTypeNode localeCompare typeKeyword st path AnyT parentJsonKey inArray = (''any'', st)"
| "renderTypeNode localeCompare typeKeyword st path NumberT parentJsonKey inArray = (''number'', st)"
| "renderTypeNode localeCompare typeKeyword st path BooleanT parentJsonKey inArray = (''boolean'', st)"
| "renderTypeNode localeCompare typeKeyword st path (StringT d e s) parentJsonKey inArray =
     (if orEmpty e \<noteq> [] then Array_join '' | '' (map JSON_stringify_string (orEmpty e))
      else if truthy d then ''string | Date'' else ''string'', st)"
| "renderTypeNode localeCompare typeKeyword st path (UnionT ts) parentJsonKey inArray =
     (case renderTypeNode_types localeCompare typeKeyword st path 0 ts parentJsonKey inArray of
        (rendered, st') \<Rightarrow> (Array_join '' | '' rendered, st'))"
| "renderTypeNode localeCompare typeKeyword st path (ArrayT itemNode) parentJsonKey inArray =
     renderArrayType localeCompare typeKeyword st (path @ [AtItems]) itemNode parentJsonKey"
| "renderTypeNode localeCompare typeKeyword st path (ObjectT fs) parentJsonKey inArray =
     (case renderTypeNode_fields localeCompare typeKeyword st path
             (Array_sort (\<lambda>a b. localeCompare (fst a) (fst b)) fs) [''{''] of
        (lines, st') \<Rightarrow> (Array_join [CHR 0x0A] (lines @ [''}'']), st'))"
| "renderTypeNode_types localeCompare typeKeyword st path i [] parentJsonKey inArray = ([], st)"
| "renderTypeNode_types localeCompare typeKeyword st path i (t # ts) parentJsonKey inArray =
     (case renderTypeNode localeCompare typeKeyword st (path @ [AtMember i]) t parentJsonKey inArray of
        (r, st1) \<Rightarrow>
          (case renderTypeNode_types localeCompare typeKeyword st1 path (i + 1) ts parentJsonKey inArray of
             (rs, st2) \<Rightarrow> (r # rs, st2)))"
| "renderTypeNode_fields localeCompare typeKeyword st path [] lines = (lines, st)"
| "renderTypeNode_fields localeCompare typeKeyword st path ((fieldName, t, required) # rest) lines =
     (case (if kind t = KObject
              then ensureNamedTypeForObject localeCompare typeKeyword st (path @ [AtField fieldName])
                     t fieldName False
            else if kind t = KArray \<and> kind (items t) = KObject
              then (case ensureNamedTypeForObject localeCompare typeKeyword st
                           (path @ [AtField fieldName, AtItems]) (items t) fieldName True of
                      (itemName, st1) \<Rightarrow> (itemName @ ''[]'', st1))
            else if kind t = KArray
              then renderArrayType localeCompare typeKeyword st (path @ [AtField fieldName, AtItems])
                     (items t) fieldName
            else renderTypeNode localeCompare typeKeyword st (path @ [AtField fieldName]) t fieldName False) of
        (tsType, st1) \<Rightarrow>
          renderTypeNode_fields localeCompare typeKeyword st1 path rest
            (lines @ [fieldLine fieldName required tsType]))"
| "renderArrayType localeCompare typeKeyword st path itemNode parentArrayJsonKey =
     (case renderTypeNode localeCompare typeKeyword st path itemNode parentArrayJsonKey True of
        (inner, st1) \<Rightarrow>
          (let needsParens = (kind itemNode = KUnion \<or>
                              (kind itemNode = KString \<and> orEmpty (enumValues itemNode) \<noteq> []))
           in (if needsParens then ''('' @ inner @ '')[]'' else inner @ ''[]'', st1)))"
| "ensureNamedTypeForObject localeCompare typeKeyword st path objectNode jsonKeyForThisObject isArrayItem =
     (case map_of (objectNodeToTypeName st) path of
        Some name \<Rightarrow> (name, st)
      | None \<Rightarrow>
          (case nextAvailableTypeName (nameFromJsonKey jsonKeyForThisObject isArrayItem) st of
             (finalName, st1) \<Rightarrow>
               (case renderTypeNode localeCompare typeKeyword
                       (st1\<lparr>objectNodeToTypeName := Map_set path finalName (objectNodeToTypeName st1)\<rparr>)
                       path objectNode jsonKeyForThisObject False of
                  (body, st2) \<Rightarrow>
                    (finalName,
                     st2\<lparr>namedTypeDefinitions := namedTypeDefinitions st2 @
                        [''export '' @ typeKeyword @ '' '' @ finalName @ '' = '' @ body @ '';'']\<rparr>))))"
  by pat_completeness auto

text \<open>The measure of the termination proof.\<close>

definition typesMeasure :: "TypeNode list \<Rightarrow> nat" where
  "typesMeasure ts = sum_list (map (\<lambda>t. 3 * size t + 2) ts)"

definition fieldsMeasure :: "FieldMap \<Rightarrow> nat" where
  "fieldsMeasure fs = sum_list (map (\<lambda>(k, t, r). 3 * size t + 3) fs)"

lemma typesMeasure_simps [simp]:
  "typesMeasure [] = 0" "typesMeasure (t # ts) = 3 * size t + 2 + typesMeasure ts"
  by (simp_all add: typesMeasure_def)

lemma fieldsMeasure_simps [simp]:
  "fieldsMeasure [] = 0" "fieldsMeasure ((k, t, r) # fs) = 3 * size t + 3 + fieldsMeasure fs"
  by (simp_all add: fieldsMeasure_def)

lemma typesMeasure_union: "typesMeasure ts < 3 * size (UnionT ts) + 1"
  by (induction ts) auto

lemma fieldsMeasure_object: "fieldsMeasure fs < 3 * size (ObjectT fs) + 1"
  by (induction fs) auto

lemma fieldsMeasure_insertBy:
  "fieldsMeasure (insertBy cmp x xs) = fieldsMeasure (x # xs)"
  by (induction xs) (auto simp: fieldsMeasure_def)

lemma fieldsMeasure_Cons: "fieldsMeasure (x # xs) = fieldsMeasure [x] + fieldsMeasure xs"
  by (simp add: fieldsMeasure_def)

lemma fieldsMeasure_sort: "fieldsMeasure (Array_sort cmp fs) = fieldsMeasure fs"
  unfolding Array_sort_def
proof (induction fs)
  case (Cons x fs)
  have "fieldsMeasure (foldr (insertBy cmp) (x # fs) []) =
        fieldsMeasure (x # foldr (insertBy cmp) fs [])"
    by (simp add: fieldsMeasure_insertBy)
  also have "\<dots> = fieldsMeasure [x] + fieldsMeasure fs"
    using Cons by (simp add: fieldsMeasure_Cons [of x "foldr (insertBy cmp) fs []"])
  finally show ?case by (simp add: fieldsMeasure_Cons [of x fs])
qed simp

lemma size_items: "kind t = KArray \<Longrightarrow> size (items t) < size t"
  by (cases t) auto

termination renderTypeNode
proof (relation "measure (\<lambda>x. case x of
      Inl (Inl (c, k, st, p, node, key, inArr)) \<Rightarrow> 3 * size node + 1
    | Inl (Inr (c, k, st, p, i, ts, key, inArr)) \<Rightarrow> typesMeasure ts
    | Inr (Inl (c, k, st, p, fs, lines)) \<Rightarrow> fieldsMeasure fs
    | Inr (Inr (Inl (c, k, st, p, node, key))) \<Rightarrow> 3 * size node + 2
    | Inr (Inr (Inr (c, k, st, p, node, key, isItem))) \<Rightarrow> 3 * size node + 2)",
    goal_cases)
  case 1
  then show ?case by simp
next
  case 2
  then show ?case using typesMeasure_union by simp
next
  case 3
  then show ?case by simp
next
  case 4
  then show ?case using fieldsMeasure_object by (simp add: fieldsMeasure_sort)
next
  case 5
  then show ?case by simp
next
  case 6
  then show ?case by simp
next
  case 7
  then show ?case by simp
next
  case (8 localeCompare typeKeyword st path fieldName t required rest lines)
  then have "size (items t) < size t" using size_items by blast
  then show ?case by simp
next
  case (9 localeCompare typeKeyword st path fieldName t required rest lines)
  then have "size (items t) < size t" using size_items by blast
  then show ?case by simp
next
  case 10
  then show ?case by simp
next
  case 11
  then show ?case by simp
next
  case 12
  then show ?case by simp
next
  case 13
  then show ?case by simp
qed

definition renderHeader :: string where
  "renderHeader = Array_join [CHR 0x0A]
     [''/**'',
      '' * Generated by typasaur'',
      '' *'',
      '' *                    __'',
      '' *                   / _)'',
      '' *          .-^^^-/ /'',
      '' *      __/       /'',
      '' *     <__.|_|-|_|'',
      '' *'',
      '' * JSON to TypeScript Model CLI'',
      '' */'']"

definition renderTypescriptFromTree ::
    "(string \<Rightarrow> string \<Rightarrow> int) \<Rightarrow> string \<Rightarrow> bool \<Rightarrow> TypeNode \<Rightarrow> string" where
  "renderTypescriptFromTree localeCompare rootTypeName useInterfaceKeyword rootTypeTree =
     (let typeKeyword = (if useInterfaceKeyword then ''interface'' else ''type'');
          st0 = \<lparr>namedTypeDefinitions = [], objectNodeToTypeName = [],
                 usedTypeNames = [rootTypeName]\<rparr>
      in case renderTypeNode localeCompare typeKeyword st0 [] rootTypeTree rootTypeName False of
           (rootBody, st) \<Rightarrow>
             Array_join [CHR 0x0A, CHR 0x0A]
               ([renderHeader] @ namedTypeDefinitions st @
                [''export '' @ typeKeyword @ '' '' @ rootTypeName @ '' = '' @ rootBody @ '';''])
             @ [CHR 0x0A])"

section \<open>Predicates and abstractions of the statements\<close>

subsection \<open>The invariant of the field maps\<close>

text \<open>
  The keys of a JavaScript \<open>Map\<close> are distinct. The association lists of the model
  can repeat a key, so the theorems about arbitrary nodes assume \<open>wellFormedMaps\<close>:
  every \<open>fields\<close> list in the node has distinct keys. Every node a JavaScript
  program can build satisfies it.
\<close>

fun wellFormedMaps :: "TypeNode \<Rightarrow> bool" where
  "wellFormedMaps (ArrayT t) = wellFormedMaps t"
| "wellFormedMaps (UnionT ts) = (\<forall>t \<in> set ts. wellFormedMaps t)"
| "wellFormedMaps (ObjectT fs) =
     (distinct (map fst fs) \<and> (\<forall>(k, t, r) \<in> set fs. wellFormedMaps t))"
| "wellFormedMaps _ = True"

subsection \<open>Well-formed type nodes\<close>

text \<open>
  The invariants of a union node come in two parts. \<open>unionsNormalized\<close>: at least
  two members, none of them a union and none of them the any node, at every depth;
  \<open>wellFormedNode\<close> adds the invariant of the field maps. \<open>unionsDistinct\<close>,
  defined after them: no two members of a union are structurally equal, at every
  depth. They are kept apart because unification preserves the first part and not
  the second.
\<close>

fun unionsNormalized :: "TypeNode \<Rightarrow> bool" where
  "unionsNormalized (ArrayT t) = unionsNormalized t"
| "unionsNormalized (UnionT ts) =
     (2 \<le> length ts \<and> (\<forall>t \<in> set ts. kind t \<noteq> KUnion \<and> kind t \<noteq> KAny \<and> unionsNormalized t))"
| "unionsNormalized (ObjectT fs) = (\<forall>(k, t, r) \<in> set fs. unionsNormalized t)"
| "unionsNormalized _ = True"

definition wellFormedNode :: "TypeNode \<Rightarrow> bool" where
  "wellFormedNode t = (wellFormedMaps t \<and> unionsNormalized t)"



subsection \<open>Nesting depth\<close>

text \<open>
  The number of arrays and objects around the innermost value, and the value made
  of \<open>n\<close> arrays around an empty array.
\<close>

fun nestingDepth :: "JSValue \<Rightarrow> nat" where
  "nestingDepth (JArray vs) = Suc (fold max (map nestingDepth vs) 0)"
| "nestingDepth (JObject es) = Suc (fold max (map (\<lambda>(k, v). nestingDepth v) es) 0)"
| "nestingDepth _ = 0"


text \<open>
  A node in which arrays and objects are nested at most \<open>n\<close> deep. A union does
  not count as a level.
\<close>

fun depthWithin :: "nat \<Rightarrow> TypeNode \<Rightarrow> bool" where
  "depthWithin 0 (ArrayT t) = False"
| "depthWithin (Suc n) (ArrayT t) = depthWithin n t"
| "depthWithin n (UnionT ts) = (\<forall>t \<in> set ts. depthWithin n t)"
| "depthWithin 0 (ObjectT fs) = False"
| "depthWithin (Suc n) (ObjectT fs) = (\<forall>(k, t, r) \<in> set fs. depthWithin n t)"
| "depthWithin n AnyT = True"
| "depthWithin n NumberT = True"
| "depthWithin n BooleanT = True"
| "depthWithin n (StringT d e s) = True"

subsection \<open>Required fields and object samples\<close>

text \<open>
  \<open>allFieldsRequired\<close>: every field of every object node in the tree is required.
  \<open>unifiesObjects a b\<close>: the recursion of \<open>unifyTypes a b\<close> reaches its object
  case, the one place where a field is stored with \<open>required = false\<close>; this happens
  when \<open>a\<close> and \<open>b\<close> are object nodes, or array nodes around such, that are not
  structurally equal.
\<close>

fun allFieldsRequired :: "TypeNode \<Rightarrow> bool" where
  "allFieldsRequired (ArrayT t) = allFieldsRequired t"
| "allFieldsRequired (UnionT ts) = (\<forall>t \<in> set ts. allFieldsRequired t)"
| "allFieldsRequired (ObjectT fs) = (\<forall>(k, t, r) \<in> set fs. r \<and> allFieldsRequired t)"
| "allFieldsRequired _ = True"

fun unifiesObjects :: "TypeNode \<Rightarrow> TypeNode \<Rightarrow> bool" where
  "unifiesObjects (ArrayT x) (ArrayT y) = unifiesObjects x y"
| "unifiesObjects (ObjectT fa) (ObjectT fb) = (\<not> areTypesEqual (ObjectT fa) (ObjectT fb))"
| "unifiesObjects a b = False"

text \<open>
  A node with an object node inside, a value with an object inside, and a value in
  which every array has at most one element with an object inside: the object
  samples of such a value are never unified with one another.
\<close>

fun containsObjectNode :: "TypeNode \<Rightarrow> bool" where
  "containsObjectNode (ObjectT fs) = True"
| "containsObjectNode (ArrayT t) = containsObjectNode t"
| "containsObjectNode (UnionT ts) = (\<exists>t \<in> set ts. containsObjectNode t)"
| "containsObjectNode _ = False"

fun containsObject :: "JSValue \<Rightarrow> bool" where
  "containsObject (JObject es) = True"
| "containsObject (JArray vs) = (\<exists>v \<in> set vs. containsObject v)"
| "containsObject _ = False"

fun oneObjectSample :: "JSValue \<Rightarrow> bool" where
  "oneObjectSample (JArray vs) =
     (length (filter containsObject vs) \<le> 1 \<and> (\<forall>v \<in> set vs. oneObjectSample v))"
| "oneObjectSample (JObject es) = (\<forall>(k, v) \<in> set es. oneObjectSample v)"
| "oneObjectSample _ = True"

subsection \<open>Distinct values in first-seen order\<close>

text \<open>
  The distinct values of a list in the order of their first occurrences, defined
  without the \<open>Set\<close> of the code, to state what the enum values of a string array
  are.
\<close>

fun distinctFirstSeen :: "'a list \<Rightarrow> 'a list" where
  "distinctFirstSeen [] = []"
| "distinctFirstSeen (x # xs) = x # removeAll x (distinctFirstSeen xs)"

subsection \<open>Default options\<close>

text \<open>The options the command line uses when no flag is given.\<close>

definition defaultOptions :: InferOptions where
  "defaultOptions =
     \<lparr>detectDatesFromIsoStrings = True,
      stringEnumMinUniqueValues = 2,
      stringEnumMaxUniqueValues = 12\<rparr>"

subsection \<open>Shapes: type nodes up to the order of union members and enum values\<close>

text \<open>
  The shape of a node forgets what the order of storage adds: the enum values of a
  string node and the members of a union are sets, the fields of an object are a set
  of entries (a finite map, the keys being distinct), an absent \<open>isDate\<close> is false,
  absent \<open>enumValues\<close> are empty, the \<open>sample\<close> is dropped. A union all of
  whose members have one and the same shape has that shape.
\<close>

datatype Shape =
    SAny
  | SNumber
  | SBoolean
  | SString bool "string fset"
  | SArray Shape
  | SUnion "Shape fset"
  | SObject "(string \<times> Shape \<times> bool) fset"

definition unionShape :: "Shape list \<Rightarrow> Shape" where
  "unionShape xs = (case remdups xs of [x] \<Rightarrow> x | _ \<Rightarrow> SUnion (fset_of_list xs))"

fun shapeOf :: "TypeNode \<Rightarrow> Shape" where
  "shapeOf AnyT = SAny"
| "shapeOf NumberT = SNumber"
| "shapeOf BooleanT = SBoolean"
| "shapeOf (StringT d e s) = SString (truthy d) (fset_of_list (orEmpty e))"
| "shapeOf (ArrayT t) = SArray (shapeOf t)"
| "shapeOf (UnionT ts) = unionShape (map shapeOf ts)"
| "shapeOf (ObjectT fs) = SObject (fset_of_list (map (\<lambda>(k, t, r). (k, shapeOf t, r)) fs))"

subsection \<open>Comparison functions\<close>

text \<open>
  A comparison function is consistent when the relation \<open>cmp a b \<le> 0\<close> is total and
  transitive; \<open>Array.prototype.sort\<close> sorts under such a function, and
  \<open>localeCompare\<close> is one in every locale.
\<close>

definition consistentComparator :: "('a \<Rightarrow> 'a \<Rightarrow> int) \<Rightarrow> bool" where
  "consistentComparator cmp =
     ((\<forall>a b. cmp a b \<le> 0 \<or> cmp b a \<le> 0) \<and>
      (\<forall>a b c. cmp a b \<le> 0 \<and> cmp b c \<le> 0 \<longrightarrow> cmp a c \<le> 0))"

text \<open>Lexicographic comparison of two sequences of weights.\<close>

fun compareWeights :: "nat list \<Rightarrow> nat list \<Rightarrow> int" where
  "compareWeights [] [] = 0"
| "compareWeights [] (y # ys) = - 1"
| "compareWeights (x # xs) [] = 1"
| "compareWeights (x # xs) (y # ys) =
     (if x < y then - 1 else if y < x then 1 else compareWeights xs ys)"

text \<open>
  The ordinal comparison of two strings, by the codes of their characters: the
  comparison claim C8 names.
\<close>

definition ordinalCompare :: "string \<Rightarrow> string \<Rightarrow> int" where
  "ordinalCompare a b = compareWeights (map of_char a) (map of_char b)"

text \<open>
  One possible \<open>localeCompare\<close>: a collation that compares the letters regardless
  of case first and, the letters being the same, puts lower case before upper case,
  as the collations of the Unicode locale data do on ASCII letters
  (\<open>"a".localeCompare("B")\<close> is negative).
\<close>

definition collationKey :: "string \<Rightarrow> nat list" where
  "collationKey s =
     map (\<lambda>c. (of_char (toLowerAscii c) :: nat) + 1) s @ [0] @
     map (\<lambda>c. if c \<in> set ''ABCDEFGHIJKLMNOPQRSTUVWXYZ'' then 1 else 0) s"

definition alphabeticCollation :: "string \<Rightarrow> string \<Rightarrow> int" where
  "alphabeticCollation a b = compareWeights (collationKey a) (collationKey b)"

section \<open>Basic facts\<close>

lemma TypeNode_induct [case_names AnyT NumberT BooleanT StringT ArrayT UnionT ObjectT]:
  assumes "P AnyT" and "P NumberT" and "P BooleanT"
    and "\<And>d e s. P (StringT d e s)"
    and "\<And>t. P t \<Longrightarrow> P (ArrayT t)"
    and "\<And>ts. (\<And>t. t \<in> set ts \<Longrightarrow> P t) \<Longrightarrow> P (UnionT ts)"
    and "\<And>fs. (\<And>k t r. (k, t, r) \<in> set fs \<Longrightarrow> P t) \<Longrightarrow> P (ObjectT fs)"
  shows "P x"
proof (induction x)
  case (ObjectT fs)
  show ?case
  proof (rule assms(7))
    fix k t r
    assume m: "(k, t, r) \<in> set fs"
    have "t \<in> Basic_BNFs.fsts (snd (k, t, r))"
      by (simp add: fsts.simps)
    moreover have "(t, r) \<in> Basic_BNFs.snds (k, t, r)"
      by (simp add: snds.simps)
    ultimately show "P t"
      using ObjectT[OF m] by simp
  qed
qed (auto intro: assms)

lemma kind_AnyT_iff: "kind x = KAny \<longleftrightarrow> x = AnyT"
  by (cases x) auto

lemma areTypesEqual_AnyT_right: "areTypesEqual x AnyT \<Longrightarrow> x = AnyT"
  by (cases x) auto

lemma areTypesEqual_every_refl:
  "(\<And>t. t \<in> set ts \<Longrightarrow> areTypesEqual t t) \<Longrightarrow> areTypesEqual_every ts ts"
  by (induction ts) auto

lemma areTypesEqual_fields_sub:
  assumes "distinct (map fst fb)"
    and "set xs \<subseteq> set fb"
    and "\<And>k t r. (k, t, r) \<in> set xs \<Longrightarrow> areTypesEqual t t"
  shows "areTypesEqual_fields xs fb"
  using assms(2,3)
proof (induction xs)
  case Nil
  then show ?case by simp
next
  case (Cons e xs)
  obtain k t r where e: "e = (k, t, r)" by (cases e)
  from Cons.prems(1) e have "(k, t, r) \<in> set fb" by auto
  with assms(1) have "map_of fb k = Some (t, r)" by simp
  moreover have "areTypesEqual t t" using Cons.prems(2)[of k t r] e by simp
  moreover have "areTypesEqual_fields xs fb" using Cons by auto
  ultimately show ?case using e by simp
qed

lemma areTypesEqual_refl: "wellFormedMaps x \<Longrightarrow> areTypesEqual x x"
proof (induction x rule: TypeNode_induct)
  case (UnionT ts)
  then show ?case by (auto intro!: areTypesEqual_every_refl)
next
  case (ObjectT fs)
  have "areTypesEqual_fields fs fs"
  proof (rule areTypesEqual_fields_sub)
    show "distinct (map fst fs)" using ObjectT.prems by simp
    show "set fs \<subseteq> set fs" by simp
    fix k t r assume m: "(k, t, r) \<in> set fs"
    then have "wellFormedMaps t" using ObjectT.prems by auto
    then show "areTypesEqual t t" using ObjectT.IH[OF m] by simp
  qed
  then show ?case by simp
qed auto

lemma unifyTypes_equal: "areTypesEqual a b \<Longrightarrow> unifyTypes a b = a"
  by (subst unifyTypes.simps) (simp only: if_True)

section \<open>Dominance of any\<close>

text \<open>
  Claim C6. For every type node \<open>x\<close>, \<open>unifyTypes\<close> of the any node and \<open>x\<close>
  is the any node, and so is \<open>unifyTypes\<close> of \<open>x\<close> and the any node.
\<close>

theorem unify_any_dominance: "unifyTypes AnyT x = AnyT \<and> unifyTypes x AnyT = AnyT"
proof
  show "unifyTypes AnyT x = AnyT"
    by (subst unifyTypes.simps) simp
  show "unifyTypes x AnyT = AnyT"
    by (subst unifyTypes.simps) (auto dest: areTypesEqual_AnyT_right)
qed

section \<open>Idempotence\<close>

text \<open>
  Claim C5. For every type node \<open>x\<close> (its field maps having distinct keys, as
  every \<open>Map\<close> has), \<open>unifyTypes x x\<close> is the left operand \<open>x\<close> itself,
  unchanged, and so it is structurally equal to \<open>x\<close>.
\<close>

theorem unify_idempotent:
  assumes "wellFormedMaps x"
  shows "unifyTypes x x = x \<and> areTypesEqual (unifyTypes x x) x"
proof -
  have eq: "areTypesEqual x x"
    using assms by (rule areTypesEqual_refl)
  then have "unifyTypes x x = x"
    by (rule unifyTypes_equal)
  with eq show ?thesis by simp
qed

theorem unify_idempotent_witness:
  "wellFormedMaps
     (ObjectT [(''id'', NumberT, True),
               (''tags'', ArrayT (UnionT [StringT (Some False) None (Some ''x''), NumberT]), False)]) \<and>
   unifyTypes
     (ObjectT [(''id'', NumberT, True),
               (''tags'', ArrayT (UnionT [StringT (Some False) None (Some ''x''), NumberT]), False)])
     (ObjectT [(''id'', NumberT, True),
               (''tags'', ArrayT (UnionT [StringT (Some False) None (Some ''x''), NumberT]), False)]) =
     ObjectT [(''id'', NumberT, True),
              (''tags'', ArrayT (UnionT [StringT (Some False) None (Some ''x''), NumberT]), False)]"
proof -
  have h: "wellFormedMaps
     (ObjectT [(''id'', NumberT, True),
               (''tags'', ArrayT (UnionT [StringT (Some False) None (Some ''x''), NumberT]), False)])"
    by simp
  show ?thesis
    using h unify_idempotent [OF h] by blast
qed

section \<open>The object case of unification\<close>

text \<open>
  What the loop of the object case stores for one key: the body of the loop, as a
  function of the key.
\<close>

definition unifiedField :: "FieldMap \<Rightarrow> FieldMap \<Rightarrow> string \<Rightarrow> (TypeNode \<times> bool) option" where
  "unifiedField fa fb key =
     (case map_of fa key of
        Some (ta, ra) \<Rightarrow>
          (case map_of fb key of
             Some (tb, rb) \<Rightarrow> Some (unifyTypes ta tb, ra \<and> rb)
           | None \<Rightarrow> Some (ta, False))
      | None \<Rightarrow>
          (case map_of fb key of
             Some (tb, rb) \<Rightarrow> Some (tb, False)
           | None \<Rightarrow> None))"

lemma set_Set_from_aux: "set (foldl Set_add acc xs) = set acc \<union> set xs"
  by (induction xs arbitrary: acc) (auto simp: Set_add_def)

lemma distinct_Set_from_aux: "distinct acc \<Longrightarrow> distinct (foldl Set_add acc xs)"
  by (induction xs arbitrary: acc) (auto simp: Set_add_def)

lemma set_Set_from [simp]: "set (Set_from xs) = set xs"
  by (simp add: Set_from_def set_Set_from_aux)

lemma distinct_Set_from [simp]: "distinct (Set_from xs)"
  by (simp add: Set_from_def distinct_Set_from_aux)

lemma Map_set_fresh: "k \<notin> fst ` set m \<Longrightarrow> Map_set k v m = m @ [(k, v)]"
  unfolding Map_set_def by (induction m) auto

lemma foldl_Map_set:
  "distinct ks \<Longrightarrow> set ks \<inter> fst ` set acc = {} \<Longrightarrow>
   foldl (\<lambda>m k. case g k of Some v \<Rightarrow> Map_set k v m | None \<Rightarrow> m) acc ks =
   acc @ List.map_filter (\<lambda>k. map_option (Pair k) (g k)) ks"
proof (induction ks arbitrary: acc)
  case Nil
  then show ?case by (simp add: List.map_filter_simps)
next
  case (Cons k ks)
  show ?case
  proof (cases "g k")
    case None
    then show ?thesis using Cons by (simp add: List.map_filter_simps)
  next
    case (Some v)
    have fresh: "k \<notin> fst ` set acc" using Cons.prems by auto
    have "set ks \<inter> fst ` set (acc @ [(k, v)]) = {}" using Cons.prems by auto
    then show ?thesis
      using Cons.IH[of "acc @ [(k, v)]"] Cons.prems Some
      by (simp add: List.map_filter_simps Map_set_fresh[OF fresh])
  qed
qed

lemma map_of_map_filter:
  "map_of (List.map_filter (\<lambda>k. map_option (Pair k) (g k)) ks) k =
   (if k \<in> set ks then g k else None)"
  by (induction ks) (auto simp: List.map_filter_simps split: option.splits)

lemma fst_set_map_filter:
  "fst ` set (List.map_filter (\<lambda>k. map_option (Pair k) (g k)) ks) = {k \<in> set ks. g k \<noteq> None}"
  by (induction ks) (auto simp: List.map_filter_simps split: option.splits)

lemma distinct_map_filter:
  "distinct ks \<Longrightarrow> distinct (map fst (List.map_filter (\<lambda>k. map_option (Pair k) (g k)) ks))"
proof (induction ks)
  case (Cons k ks)
  have "k \<notin> fst ` set (List.map_filter (\<lambda>k. map_option (Pair k) (g k)) ks)"
    using Cons.prems by (simp add: fst_set_map_filter)
  then show ?case using Cons by (auto simp: List.map_filter_simps split: option.splits)
qed (simp add: List.map_filter_simps)

lemma unifyTypes_step:
  "(\<lambda>unified key.
            case map_of fa key of
              Some (ta, ra) \<Rightarrow>
                (case map_of fb key of
                   Some (tb, rb) \<Rightarrow> Map_set key (unifyTypes ta tb, ra \<and> rb) unified
                 | None \<Rightarrow> Map_set key (ta, False) unified)
            | None \<Rightarrow>
                (case map_of fb key of
                   Some (tb, rb) \<Rightarrow> Map_set key (tb, False) unified
                 | None \<Rightarrow> unified)) =
        (\<lambda>m k. case unifiedField fa fb k of Some v \<Rightarrow> Map_set k v m | None \<Rightarrow> m)"
  by (intro ext) (simp add: unifiedField_def split: option.splits)

lemma unifiedField_None_iff:
  "unifiedField fa fb k = None \<longleftrightarrow> k \<notin> fst ` set fa \<and> k \<notin> fst ` set fb"
proof (cases "map_of fa k")
  case None
  then show ?thesis
    by (cases "map_of fb k") (auto simp: unifiedField_def map_of_eq_None_iff[symmetric]
        simp del: map_of_eq_None_iff)
next
  case (Some x)
  then have "k \<in> fst ` set fa"
    by (metis map_of_eq_None_iff option.distinct(1))
  then show ?thesis
    using Some by (cases x; cases "map_of fb k") (auto simp: unifiedField_def)
qed

lemma unifyTypes_objects:
  assumes "\<not> areTypesEqual (ObjectT fa) (ObjectT fb)"
  shows "unifyTypes (ObjectT fa) (ObjectT fb) =
     ObjectT (List.map_filter (\<lambda>k. map_option (Pair k) (unifiedField fa fb k))
                (Set_from (map fst fa @ map fst fb)))"
proof -
  have "unifyTypes (ObjectT fa) (ObjectT fb) =
     ObjectT (foldl (\<lambda>m k. case unifiedField fa fb k of Some v \<Rightarrow> Map_set k v m | None \<Rightarrow> m)
        [] (Set_from (map fst fa @ map fst fb)))"
    by (subst unifyTypes.simps) (simp only: unifyTypes_step assms if_False kind.simps TypeNode.sel, simp)
  then show ?thesis
    by (simp add: foldl_Map_set)
qed

lemma map_of_unified:
  "map_of (List.map_filter (\<lambda>k. map_option (Pair k) (unifiedField fa fb k))
                (Set_from (map fst fa @ map fst fb))) k = unifiedField fa fb k"
proof -
  show ?thesis
    using unifiedField_None_iff[of fa fb k] by (auto simp: map_of_map_filter)
qed

lemma areTypesEqual_fields_D:
  "areTypesEqual_fields xs fb \<Longrightarrow> (k, t, r) \<in> set xs \<Longrightarrow>
   \<exists>tb. map_of fb k = Some (tb, r) \<and> areTypesEqual t tb"
  by (induction xs) (auto split: option.splits if_splits)

lemma areTypesEqual_objects_keys:
  assumes "areTypesEqual (ObjectT fa) (ObjectT fb)" "distinct (map fst fa)"
  shows "fst ` set fa = fst ` set fb"
proof -
  from assms(1) have len: "length fa = length fb" and eq: "areTypesEqual_fields fa fb"
    by (auto split: if_splits)
  have sub: "fst ` set fa \<subseteq> fst ` set fb"
  proof
    fix k assume "k \<in> fst ` set fa"
    then obtain t r where "(k, t, r) \<in> set fa" by auto
    from areTypesEqual_fields_D[OF eq this] obtain tb where "map_of fb k = Some (tb, r)" by blast
    then show "k \<in> fst ` set fb" by (meson domI dom_map_of_conv_image_fst[THEN equalityD1, THEN subsetD] domIff)
  qed
  have "card (fst ` set fb) \<le> length fb"
    by (metis card_length length_map set_map)
  also have "\<dots> = card (fst ` set fa)"
    using assms(2) len by (metis distinct_card length_map set_map)
  finally have "card (fst ` set fb) \<le> card (fst ` set fa)" .
  with sub show ?thesis
    by (simp add: card_seteq)
qed

text \<open>
  Claim C1. For all object nodes \<open>a\<close> and \<open>b\<close> (field maps with distinct keys),
  the result of \<open>unifyTypes a b\<close> is an object node whose keys are the keys of
  \<open>a\<close> and of \<open>b\<close>; a field of it is required if and only if its key is
  present in \<open>a\<close> and in \<open>b\<close> with \<open>required = true\<close> on both sides;
  a key present on one side only keeps the type it has there and gets
  \<open>required = false\<close>.
\<close>

theorem unify_objects_required:
  assumes "distinct (map fst fa)" and "distinct (map fst fb)"
  shows "\<exists>fu. unifyTypes (ObjectT fa) (ObjectT fb) = ObjectT fu \<and>
     fst ` set fu = fst ` set fa \<union> fst ` set fb \<and>
     (\<forall>k. (\<exists>t. map_of fu k = Some (t, True)) \<longleftrightarrow>
          (\<exists>ta tb. map_of fa k = Some (ta, True) \<and> map_of fb k = Some (tb, True))) \<and>
     (\<forall>k ta ra. map_of fa k = Some (ta, ra) \<and> map_of fb k = None \<longrightarrow>
          map_of fu k = Some (ta, False)) \<and>
     (\<forall>k tb rb. map_of fa k = None \<and> map_of fb k = Some (tb, rb) \<longrightarrow>
          map_of fu k = Some (tb, False))"
proof (cases "areTypesEqual (ObjectT fa) (ObjectT fb)")
  case True
  then have res: "unifyTypes (ObjectT fa) (ObjectT fb) = ObjectT fa"
    by (rule unifyTypes_equal)
  have keys: "fst ` set fa = fst ` set fb"
    using areTypesEqual_objects_keys[OF True assms(1)] .
  from True have eq: "areTypesEqual_fields fa fb" by (auto split: if_splits)
  have both: "\<exists>tb. map_of fb k = Some (tb, r)" if "map_of fa k = Some (t, r)" for k t r
    using areTypesEqual_fields_D[OF eq map_of_SomeD[OF that]] by blast
  have dom: "map_of fa k = None \<longleftrightarrow> map_of fb k = None" for k
    using keys by (simp add: map_of_eq_None_iff)
  show ?thesis
  proof (intro exI[of _ fa] conjI allI)
    show "unifyTypes (ObjectT fa) (ObjectT fb) = ObjectT fa" by (rule res)
    show "fst ` set fa = fst ` set fa \<union> fst ` set fb" using keys by simp
    show "(\<exists>t. map_of fa k = Some (t, True)) \<longleftrightarrow>
          (\<exists>ta tb. map_of fa k = Some (ta, True) \<and> map_of fb k = Some (tb, True))" for k
      using both by blast
    show "map_of fa k = Some (ta, ra) \<and> map_of fb k = None \<longrightarrow> map_of fa k = Some (ta, False)" for k ta ra
      using dom[of k] by auto
    show "map_of fa k = None \<and> map_of fb k = Some (tb, rb) \<longrightarrow> map_of fa k = Some (tb, False)" for k tb rb
      using dom[of k] by auto
  qed
next
  case False
  let ?fu = "List.map_filter (\<lambda>k. map_option (Pair k) (unifiedField fa fb k))
                (Set_from (map fst fa @ map fst fb))"
  have m: "map_of ?fu k = unifiedField fa fb k" for k by (rule map_of_unified)
  show ?thesis
  proof (intro exI[of _ ?fu] conjI allI)
    show "unifyTypes (ObjectT fa) (ObjectT fb) = ObjectT ?fu"
      by (rule unifyTypes_objects[OF False])
    show "fst ` set ?fu = fst ` set fa \<union> fst ` set fb"
      by (auto simp: fst_set_map_filter unifiedField_None_iff)
    show "(\<exists>t. map_of ?fu k = Some (t, True)) \<longleftrightarrow>
          (\<exists>ta tb. map_of fa k = Some (ta, True) \<and> map_of fb k = Some (tb, True))" for k
      unfolding m by (auto simp: unifiedField_def split: option.splits)
    show "map_of fa k = Some (ta, ra) \<and> map_of fb k = None \<longrightarrow> map_of ?fu k = Some (ta, False)" for k ta ra
      unfolding m by (auto simp: unifiedField_def split: option.splits)
    show "map_of fa k = None \<and> map_of fb k = Some (tb, rb) \<longrightarrow> map_of ?fu k = Some (tb, False)" for k tb rb
      unfolding m by (auto simp: unifiedField_def split: option.splits)
  qed
qed

theorem unify_objects_required_witness:
  "distinct (map fst [(''a'', NumberT, True), (''b'', StringT (Some False) None (Some ''x''), True)]) \<and>
   distinct (map fst [(''a'', NumberT, True), (''c'', BooleanT, True)]) \<and>
   (\<exists>fu. unifyTypes
            (ObjectT [(''a'', NumberT, True), (''b'', StringT (Some False) None (Some ''x''), True)])
            (ObjectT [(''a'', NumberT, True), (''c'', BooleanT, True)]) = ObjectT fu \<and>
         (\<exists>t. map_of fu ''a'' = Some (t, True)) \<and>
         map_of fu ''b'' = Some (StringT (Some False) None (Some ''x''), False) \<and>
         map_of fu ''c'' = Some (BooleanT, False))"
proof -
  let ?fa = "[(''a'', NumberT, True), (''b'', StringT (Some False) None (Some ''x''), True)]"
  let ?fb = "[(''a'', NumberT, True), (''c'', BooleanT, True)]"
  have ha: "distinct (map fst ?fa)" by simp
  have hb: "distinct (map fst ?fb)" by simp
  from unify_objects_required [OF ha hb] obtain fu where
    res: "unifyTypes (ObjectT ?fa) (ObjectT ?fb) = ObjectT fu"
    and req: "\<And>k. (\<exists>t. map_of fu k = Some (t, True)) \<longleftrightarrow>
          (\<exists>ta tb. map_of ?fa k = Some (ta, True) \<and> map_of ?fb k = Some (tb, True))"
    and left: "\<And>k ta ra. map_of ?fa k = Some (ta, ra) \<and> map_of ?fb k = None \<longrightarrow>
          map_of fu k = Some (ta, False)"
    and right: "\<And>k tb rb. map_of ?fa k = None \<and> map_of ?fb k = Some (tb, rb) \<longrightarrow>
          map_of fu k = Some (tb, False)"
    by blast
  have "\<exists>t. map_of fu ''a'' = Some (t, True)"
    using req [of "''a''"] by simp
  moreover have "map_of fu ''b'' = Some (StringT (Some False) None (Some ''x''), False)"
    using left [of "''b''"] by simp
  moreover have "map_of fu ''c'' = Some (BooleanT, False)"
    using right [of "''c''"] by simp
  ultimately show ?thesis
    using ha hb res by blast
qed

section \<open>JSON.stringify on an array of strings is injective\<close>

lemma hexDigit_eq_iff: "hexDigit m = hexDigit n \<longleftrightarrow> m mod 16 = n mod 16"
proof -
  have d: "distinct ''0123456789abcdef''" by simp
  have "(''0123456789abcdef'' ! (m mod 16) = ''0123456789abcdef'' ! (n mod 16)) =
        (m mod 16 = n mod 16)"
    by (rule nth_eq_iff_index_eq [OF d]) simp_all
  then show ?thesis by (simp add: hexDigit_def)
qed

lemma control_char_eq:
  fixes c c' :: char
  assumes "(of_char c :: nat) < 32" "(of_char c' :: nat) < 32"
    and "hexDigit (of_char c div 16) = hexDigit (of_char c' div 16)"
    and "hexDigit (of_char c) = hexDigit (of_char c')"
  shows "c = c'"
proof -
  let ?m = "of_char c :: nat" and ?n = "of_char c' :: nat"
  have "?m div 16 = ?n div 16"
    using assms(1,2,3) by (simp add: hexDigit_eq_iff)
  moreover have "?m mod 16 = ?n mod 16"
    using assms(4) by (simp add: hexDigit_eq_iff)
  ultimately have "?m = ?n"
    by (metis div_mult_mod_eq)
  then show ?thesis by simp
qed

lemma JSON_escape_cases:
  "(JSON_escape c = [c] \<and> c \<noteq> CHR 0x5C \<and> c \<noteq> CHR 0x22) \<or>
   (\<exists>x. JSON_escape c = [CHR 0x5C, x] \<and>
        (c, x) \<in> set [(CHR 0x08, CHR ''b''), (CHR 0x09, CHR ''t''), (CHR 0x0A, CHR ''n''),
                       (CHR 0x0C, CHR ''f''), (CHR 0x0D, CHR ''r''), (CHR 0x22, CHR 0x22),
                       (CHR 0x5C, CHR 0x5C)]) \<or>
   (JSON_escape c = [CHR 0x5C, CHR ''u'', CHR ''0'', CHR ''0'',
                     hexDigit ((of_char c :: nat) div 16), hexDigit (of_char c :: nat)] \<and>
    (of_char c :: nat) < 32)"
  by (simp add: JSON_escape_def)

lemma JSON_escape_not_quote: "JSON_escape c @ r \<noteq> CHR 0x22 # r'"
  using JSON_escape_cases [of c] by auto

lemma JSON_escape_table_inj:
  assumes "(c, x) \<in> set [(CHR 0x08, CHR ''b''), (CHR 0x09, CHR ''t''), (CHR 0x0A, CHR ''n''),
                       (CHR 0x0C, CHR ''f''), (CHR 0x0D, CHR ''r''), (CHR 0x22, CHR 0x22),
                       (CHR 0x5C, CHR 0x5C)]"
    and "(c', x) \<in> set [(CHR 0x08, CHR ''b''), (CHR 0x09, CHR ''t''), (CHR 0x0A, CHR ''n''),
                       (CHR 0x0C, CHR ''f''), (CHR 0x0D, CHR ''r''), (CHR 0x22, CHR 0x22),
                       (CHR 0x5C, CHR 0x5C)]"
  shows "c = c'" and "x \<noteq> CHR ''u''"
  using assms by auto

lemma JSON_escape_inj:
  assumes "JSON_escape c @ r = JSON_escape c' @ r'"
  shows "c = c' \<and> r = r'"
proof -
  consider
    (plain) "JSON_escape c = [c]" "c \<noteq> CHR 0x5C"
  | (short) x where "JSON_escape c = [CHR 0x5C, x]"
      "(c, x) \<in> set [(CHR 0x08, CHR ''b''), (CHR 0x09, CHR ''t''), (CHR 0x0A, CHR ''n''),
                       (CHR 0x0C, CHR ''f''), (CHR 0x0D, CHR ''r''), (CHR 0x22, CHR 0x22),
                       (CHR 0x5C, CHR 0x5C)]"
  | (long) "JSON_escape c = [CHR 0x5C, CHR ''u'', CHR ''0'', CHR ''0'',
                     hexDigit ((of_char c :: nat) div 16), hexDigit (of_char c :: nat)]"
      "(of_char c :: nat) < 32"
    using JSON_escape_cases [of c] by blast
  then show ?thesis
  proof cases
    case plain
    consider
      (plain') "JSON_escape c' = [c']" "c' \<noteq> CHR 0x5C"
    | (esc') t where "JSON_escape c' = CHR 0x5C # t"
      using JSON_escape_cases [of c'] by auto
    then show ?thesis
      using assms plain by cases auto
  next
    case short
    consider
      (plain') "JSON_escape c' = [c']" "c' \<noteq> CHR 0x5C"
    | (short') x' where "JSON_escape c' = [CHR 0x5C, x']"
        "(c', x') \<in> set [(CHR 0x08, CHR ''b''), (CHR 0x09, CHR ''t''), (CHR 0x0A, CHR ''n''),
                       (CHR 0x0C, CHR ''f''), (CHR 0x0D, CHR ''r''), (CHR 0x22, CHR 0x22),
                       (CHR 0x5C, CHR 0x5C)]"
    | (long') t where "JSON_escape c' = CHR 0x5C # CHR ''u'' # t"
      using JSON_escape_cases [of c'] by blast
    then show ?thesis
    proof cases
      case plain'
      with assms short show ?thesis by auto
    next
      case short'
      from assms short(1) short'(1) have "x = x'" "r = r'" by auto
      with JSON_escape_table_inj(1) [OF short(2)] short'(2) show ?thesis by blast
    next
      case long'
      with assms short(1) have "x = CHR ''u''" by auto
      with JSON_escape_table_inj(2) [OF short(2) short(2)] show ?thesis by blast
    qed
  next
    case long
    consider
      (plain') "JSON_escape c' = [c']" "c' \<noteq> CHR 0x5C"
    | (short') x' where "JSON_escape c' = [CHR 0x5C, x']"
        "(c', x') \<in> set [(CHR 0x08, CHR ''b''), (CHR 0x09, CHR ''t''), (CHR 0x0A, CHR ''n''),
                       (CHR 0x0C, CHR ''f''), (CHR 0x0D, CHR ''r''), (CHR 0x22, CHR 0x22),
                       (CHR 0x5C, CHR 0x5C)]"
    | (long') "JSON_escape c' = [CHR 0x5C, CHR ''u'', CHR ''0'', CHR ''0'',
                     hexDigit ((of_char c' :: nat) div 16), hexDigit (of_char c' :: nat)]"
        "(of_char c' :: nat) < 32"
      using JSON_escape_cases [of c'] by blast
    then show ?thesis
    proof cases
      case plain'
      with assms long show ?thesis by auto
    next
      case short'
      with assms long(1) have "x' = CHR ''u''" by auto
      with JSON_escape_table_inj(2) [OF short'(2) short'(2)] show ?thesis by blast
    next
      case long'
      from assms long(1) long'(1) have
        "hexDigit ((of_char c :: nat) div 16) = hexDigit ((of_char c' :: nat) div 16)"
        "hexDigit (of_char c :: nat) = hexDigit (of_char c' :: nat)" "r = r'"
        by auto
      with control_char_eq [OF long(2) long'(2)] show ?thesis by blast
    qed
  qed
qed

lemma JSON_body_inj:
  "concat (map JSON_escape s) @ CHR 0x22 # r = concat (map JSON_escape s') @ CHR 0x22 # r'
   \<Longrightarrow> s = s' \<and> r = r'"
proof (induction s arbitrary: s')
  case Nil
  show ?case
  proof (cases s')
    case (Cons c' cs')
    with Nil have "JSON_escape c' @ (concat (map JSON_escape cs') @ CHR 0x22 # r') = CHR 0x22 # r"
      by simp
    with JSON_escape_not_quote show ?thesis by blast
  next
    case Nil': Nil
    with Nil show ?thesis by simp
  qed
next
  case (Cons c cs)
  show ?case
  proof (cases s')
    case Nil
    with Cons.prems show ?thesis
      using JSON_escape_not_quote [of c "concat (map JSON_escape cs) @ CHR 0x22 # r" r'] by simp
  next
    case (Cons c' cs')
    with Cons.prems have
      "JSON_escape c @ (concat (map JSON_escape cs) @ CHR 0x22 # r) =
       JSON_escape c' @ (concat (map JSON_escape cs') @ CHR 0x22 # r')" by simp
    from JSON_escape_inj [OF this] Cons Cons.IH [of cs'] show ?thesis by simp
  qed
qed

lemma JSON_stringify_string_inj:
  "JSON_stringify_string s @ r = JSON_stringify_string s' @ r' \<Longrightarrow> s = s' \<and> r = r'"
  using JSON_body_inj [of s r s' r'] by (simp add: JSON_stringify_string_def)

lemma JSON_stringify_string_hd: "\<exists>t. JSON_stringify_string s = CHR 0x22 # t"
  by (simp add: JSON_stringify_string_def)

lemma Array_join_inj:
  "Array_join '','' (map JSON_stringify_string xs) @ '']'' =
   Array_join '','' (map JSON_stringify_string ys) @ '']'' \<Longrightarrow> xs = ys"
proof (induction xs arbitrary: ys)
  case Nil
  show ?case
  proof (cases ys)
    case (Cons y ys')
    obtain t where "JSON_stringify_string y = CHR 0x22 # t"
      using JSON_stringify_string_hd by blast
    with Nil Cons show ?thesis by (cases ys') auto
  qed simp
next
  case (Cons x xs')
  obtain tx where tx: "JSON_stringify_string x = CHR 0x22 # tx"
    using JSON_stringify_string_hd by blast
  show ?case
  proof (cases ys)
    case Nil
    with Cons.prems tx show ?thesis by (cases xs') auto
  next
    case ys: (Cons y ys')
    have split: "Array_join '','' (map JSON_stringify_string (z # zs)) @ '']'' =
        JSON_stringify_string z @
          (if zs = [] then '']'' else '','' @ Array_join '','' (map JSON_stringify_string zs) @ '']'')"
      for z zs by (cases zs) auto
    from Cons.prems ys have
      "JSON_stringify_string x @
          (if xs' = [] then '']'' else '','' @ Array_join '','' (map JSON_stringify_string xs') @ '']'') =
       JSON_stringify_string y @
          (if ys' = [] then '']'' else '','' @ Array_join '','' (map JSON_stringify_string ys') @ '']'')"
      by (simp only: split)
    from JSON_stringify_string_inj [OF this] have xy: "x = y"
      and rest: "(if xs' = [] then '']'' else '','' @ Array_join '','' (map JSON_stringify_string xs') @ '']'') =
                 (if ys' = [] then '']'' else '','' @ Array_join '','' (map JSON_stringify_string ys') @ '']'')"
      by simp_all
    have "xs' = ys'"
    proof (cases "xs' = []")
      case True
      with rest show ?thesis by (cases "ys' = []") auto
    next
      case False
      with rest have "ys' \<noteq> []" by (cases "ys' = []") auto
      with rest False show ?thesis using Cons.IH [of ys'] by simp
    qed
    with xy ys show ?thesis by simp
  qed
qed

lemma JSON_stringify_array_eq_iff [simp]:
  "JSON_stringify_array xs = JSON_stringify_array ys \<longleftrightarrow> xs = ys"
  using Array_join_inj [of xs ys] by (auto simp: JSON_stringify_array_def)

section \<open>Equality of string nodes\<close>

text \<open>
  Claim C7, as stated, fails: two string nodes with no \<open>isDate\<close> flag whose enum
  values are the same set in a different order are not structurally equal. The code
  compares the \<open>JSON.stringify\<close> texts of the two arrays, which depend on the
  order.
\<close>

theorem string_equality_order_counterexample:
  "truthy None = truthy None \<and>
   set (orEmpty (Some [''a'', ''b''])) = set (orEmpty (Some [''b'', ''a''])) \<and>
   \<not> areTypesEqual (StringT None (Some [''a'', ''b'']) None)
                    (StringT None (Some [''b'', ''a'']) None)"
  by auto

text \<open>
  Claim C7, amended. Two string nodes are structurally equal if and only if their
  \<open>isDate\<close> flags are equal (an absent flag counting as false) and their
  \<open>enumValues\<close> are equal as sequences, the same values in the same order (an
  absent array counting as the empty one). The \<open>sample\<close> is not compared.
\<close>

theorem string_equality_iff:
  "areTypesEqual (StringT d e s) (StringT d' e' s') \<longleftrightarrow>
   truthy d = truthy d' \<and> orEmpty e = orEmpty e'"
proof -
  have "areTypesEqual (StringT d e s) (StringT d' e' s') \<longleftrightarrow>
        truthy d = truthy d' \<and>
        JSON_stringify_array (orEmpty e) = JSON_stringify_array (orEmpty e')"
    by (simp del: JSON_stringify_array_eq_iff)
  moreover have "JSON_stringify_array (orEmpty e) = JSON_stringify_array (orEmpty e') \<longleftrightarrow>
        orEmpty e = orEmpty e'"
    by (rule JSON_stringify_array_eq_iff)
  ultimately show ?thesis by simp
qed

section \<open>The cases of unification\<close>

lemma areTypesEqual_kind: "areTypesEqual a b \<Longrightarrow> kind a = kind b"
  by (cases a; cases b) auto

lemma unifyTypes_not_equal:
  "\<not> areTypesEqual a b \<Longrightarrow> \<not> (kind a = KObject \<and> kind b = KObject) \<Longrightarrow> unifyTypes a b =
     (if kind a = KAny \<or> kind b = KAny then AnyT
     else if kind a = KUnion then normalizeUnionType (types a @ [b])
     else if kind b = KUnion then normalizeUnionType (a # types b)
     else if kind a = KString \<and> kind b = KString then
       StringT (Some (truthy (isDate a) \<or> truthy (isDate b)))
               (mergeStringLiteralSets (enumValues a) (enumValues b)) None
     else if kind a = KArray \<and> kind b = KArray then
       ArrayT (unifyTypes (items a) (items b))
     else normalizeUnionType [a, b])"
  by (subst unifyTypes.simps) (simp only: if_False)

lemma unifyTypes_any: "a = AnyT \<or> b = AnyT \<Longrightarrow> unifyTypes a b = AnyT"
  proof -
  have "unifyTypes AnyT b = AnyT"
    by (subst unifyTypes.simps) simp
  moreover have "unifyTypes a AnyT = AnyT"
    by (subst unifyTypes.simps) (auto dest: areTypesEqual_AnyT_right)
  ultimately show "a = AnyT \<or> b = AnyT \<Longrightarrow> unifyTypes a b = AnyT"
    by blast
qed

lemma unifyTypes_unionL:
  "\<not> areTypesEqual (UnionT ts) b \<Longrightarrow> b \<noteq> AnyT \<Longrightarrow>
   unifyTypes (UnionT ts) b = normalizeUnionType (ts @ [b])"
  by (simp add: unifyTypes_not_equal kind_AnyT_iff)

lemma unifyTypes_unionR:
  "\<not> areTypesEqual a (UnionT us) \<Longrightarrow> a \<noteq> AnyT \<Longrightarrow> kind a \<noteq> KUnion \<Longrightarrow>
   unifyTypes a (UnionT us) = normalizeUnionType (a # us)"
  by (simp add: unifyTypes_not_equal kind_AnyT_iff)

lemma unifyTypes_strings:
  "\<not> areTypesEqual (StringT d e s) (StringT d' e' s') \<Longrightarrow>
   unifyTypes (StringT d e s) (StringT d' e' s') =
   StringT (Some (truthy d \<or> truthy d')) (mergeStringLiteralSets e e') None"
  by (simp add: unifyTypes_not_equal)

lemma unifyTypes_arrays:
  "\<not> areTypesEqual (ArrayT x) (ArrayT y) \<Longrightarrow>
   unifyTypes (ArrayT x) (ArrayT y) = ArrayT (unifyTypes x y)"
  by (simp add: unifyTypes_not_equal)

lemma unifyTypes_mixed:
  assumes "kind a \<noteq> kind b" "kind a \<noteq> KAny" "kind a \<noteq> KUnion" "kind b \<noteq> KAny" "kind b \<noteq> KUnion"
  shows "unifyTypes a b = normalizeUnionType [a, b]"
proof -
  have "\<not> areTypesEqual a b" using assms(1) areTypesEqual_kind by blast
  moreover have "\<not> (kind a = KObject \<and> kind b = KObject)" using assms(1) by auto
  ultimately show ?thesis
    using assms by (auto simp: unifyTypes_not_equal)
qed

lemma kind_cases:
  "kind b = KString \<Longrightarrow> \<exists>d e s. b = StringT d e s"
  "kind b = KArray \<Longrightarrow> \<exists>y. b = ArrayT y"
  "kind b = KUnion \<Longrightarrow> \<exists>us. b = UnionT us"
  "kind b = KObject \<Longrightarrow> \<exists>fb. b = ObjectT fb"
  "kind b = KNumber \<Longrightarrow> b = NumberT"
  "kind b = KBoolean \<Longrightarrow> b = BooleanT"
  by (cases b; simp)+

lemma unifyTypes_cases [case_names equal any unionL unionR string array object mixed]:
  obtains
    (equal) "areTypesEqual a b" "unifyTypes a b = a"
  | (any) "\<not> areTypesEqual a b" "a = AnyT \<or> b = AnyT" "unifyTypes a b = AnyT"
  | (unionL) ts where "\<not> areTypesEqual a b" "a = UnionT ts" "b \<noteq> AnyT"
      "unifyTypes a b = normalizeUnionType (ts @ [b])"
  | (unionR) us where "\<not> areTypesEqual a b" "b = UnionT us" "a \<noteq> AnyT" "kind a \<noteq> KUnion"
      "unifyTypes a b = normalizeUnionType (a # us)"
  | (string) d e s d' e' s' where "\<not> areTypesEqual a b" "a = StringT d e s" "b = StringT d' e' s'"
      "unifyTypes a b = StringT (Some (truthy d \<or> truthy d')) (mergeStringLiteralSets e e') None"
  | (array) x y where "\<not> areTypesEqual a b" "a = ArrayT x" "b = ArrayT y"
      "unifyTypes a b = ArrayT (unifyTypes x y)"
  | (object) fa fb where "\<not> areTypesEqual a b" "a = ObjectT fa" "b = ObjectT fb"
      "unifyTypes a b =
         ObjectT (List.map_filter (\<lambda>k. map_option (Pair k) (unifiedField fa fb k))
                    (Set_from (map fst fa @ map fst fb)))"
  | (mixed) "\<not> areTypesEqual a b" "kind a \<noteq> kind b" "kind a \<noteq> KAny" "kind a \<noteq> KUnion"
      "kind b \<noteq> KAny" "kind b \<noteq> KUnion" "unifyTypes a b = normalizeUnionType [a, b]"
proof (cases "areTypesEqual a b")
  case True
  then show ?thesis using equal unifyTypes_equal by blast
next
  case ne: False
  show ?thesis
  proof (cases "a = AnyT \<or> b = AnyT")
    case True
    then show ?thesis using any [OF ne True] unifyTypes_any by blast
  next
    case nany: False
    show ?thesis
    proof (cases "kind a = KUnion")
      case True
      then obtain ts where a: "a = UnionT ts" using kind_cases(3) by blast
      show ?thesis
        using unionL [OF ne a] unifyTypes_unionL [of ts b] ne nany a by blast
    next
      case nua: False
      show ?thesis
      proof (cases "kind b = KUnion")
        case True
        then obtain us where b: "b = UnionT us" using kind_cases(3) by blast
        show ?thesis
          using unionR [OF ne b] unifyTypes_unionR [of a us] ne nany nua b by blast
      next
        case nub: False
        show ?thesis
        proof (cases "kind a = kind b")
          case False
          show ?thesis
          proof (rule mixed [OF ne False])
            show "kind a \<noteq> KAny" "kind b \<noteq> KAny" using nany by (simp_all add: kind_AnyT_iff)
            show "kind a \<noteq> KUnion" "kind b \<noteq> KUnion" using nua nub by simp_all
            then show "unifyTypes a b = normalizeUnionType [a, b]"
              using unifyTypes_mixed False nany by (simp add: kind_AnyT_iff)
          qed
        next
          case same: True
          show ?thesis
          proof (cases a)
            case AnyT
            then show ?thesis using nany by simp
          next
            case NumberT
            then show ?thesis using ne same by simp
          next
            case BooleanT
            then show ?thesis using ne same by simp
          next
            case a: (StringT d e s)
            with same obtain d' e' s' where b: "b = StringT d' e' s'"
              using kind_cases(1) [of b] by auto
            show ?thesis
              using string [OF ne a b] unifyTypes_strings ne a b by blast
          next
            case a: (ArrayT x)
            with same obtain y where b: "b = ArrayT y"
              using kind_cases(2) [of b] by auto
            show ?thesis
              using array [OF ne a b] unifyTypes_arrays ne a b by blast
          next
            case (UnionT ts)
            then show ?thesis using nua by simp
          next
            case a: (ObjectT fa)
            with same obtain fb where b: "b = ObjectT fb"
              using kind_cases(4) [of b] by auto
            show ?thesis
              using object [OF ne a b] unifyTypes_objects ne a b by blast
          qed
        qed
      qed
    qed
  qed
qed

section \<open>Unification preserves well-formedness\<close>

lemma wellFormedNode_simps [simp]:
  "wellFormedNode AnyT" "wellFormedNode NumberT" "wellFormedNode BooleanT"
  "wellFormedNode (StringT d e s)"
  "wellFormedNode (ArrayT t) = wellFormedNode t"
  "wellFormedNode (UnionT ts) =
     (2 \<le> length ts \<and> (\<forall>t \<in> set ts. kind t \<noteq> KUnion \<and> kind t \<noteq> KAny \<and> wellFormedNode t))"
  "wellFormedNode (ObjectT fs) =
     (distinct (map fst fs) \<and> (\<forall>(k, t, r) \<in> set fs. wellFormedNode t))"
  by (auto simp: wellFormedNode_def)

text \<open>The members the loop of \<open>normalizeUnionType\<close> looks at, before deduplication.\<close>

definition flattened :: "TypeNode list \<Rightarrow> TypeNode list" where
  "flattened ts = concat (map (\<lambda>t. if kind t = KUnion then types t else [t]) ts)"

lemma flattened_simps [simp]:
  "flattened [] = []"
  "flattened (t # ts) = (if kind t = KUnion then types t else [t]) @ flattened ts"
  "flattened (ts @ us) = flattened ts @ flattened us"
  by (simp_all add: flattened_def)

lemma set_normalize_flat:
  "set (foldl normalize_push acc ts) \<subseteq> set acc \<union> set (flattened ts)"
proof (induction ts arbitrary: acc)
  case (Cons t ts)
  show ?case
    using Cons [of "normalize_push acc t"] by (auto simp: normalize_push_def split: if_splits)
qed simp

lemma length_normalize_flat: "length acc \<le> length (foldl normalize_push acc ts)"
proof (induction ts arbitrary: acc)
  case (Cons t ts)
  have "length acc \<le> length (normalize_push acc t)"
    by (simp add: normalize_push_def)
  then show ?case
    using Cons [of "normalize_push acc t"] by simp
qed simp

lemma normalize_flat_nonempty:
  assumes "ts \<noteq> []" and "\<forall>t \<in> set ts. kind t = KUnion \<longrightarrow> types t \<noteq> []"
  shows "foldl normalize_push [] ts \<noteq> []"
proof -
  obtain t ts' where ts: "ts = t # ts'" using assms(1) by (cases ts) auto
  have "normalize_push [] t \<noteq> []"
    using assms(2) ts by (simp add: normalize_push_def)
  then have "0 < length (normalize_push [] t)" by simp
  also have "\<dots> \<le> length (foldl normalize_push (normalize_push [] t) ts')"
    by (rule length_normalize_flat)
  finally show ?thesis using ts by simp
qed

lemma wellFormedNode_flattened:
  assumes "\<forall>t \<in> set ts. wellFormedNode t" and "\<not> list_ex (\<lambda>t. kind t = KAny) ts"
    and "u \<in> set (flattened ts)"
  shows "kind u \<noteq> KUnion \<and> kind u \<noteq> KAny \<and> wellFormedNode u"
  using assms
proof (induction ts)
  case (Cons t ts)
  show ?case
  proof (cases "u \<in> set (flattened ts)")
    case True
    then show ?thesis using Cons by simp
  next
    case False
    show ?thesis
    proof (cases "kind t = KUnion")
      case True
      then obtain us where "t = UnionT us" using kind_cases(3) by blast
      then show ?thesis using Cons.prems False by auto
    next
      case nu: False
      then show ?thesis using Cons.prems False by auto
    qed
  qed
qed simp

lemma normalizeUnionType_wellFormed:
  assumes "ts \<noteq> []" and "\<forall>t \<in> set ts. wellFormedNode t"
  shows "wellFormedNode (normalizeUnionType ts)"
proof (cases "list_ex (\<lambda>t. kind t = KAny) ts")
  case True
  then show ?thesis by (simp add: normalizeUnionType_def)
next
  case False
  let ?flat = "foldl normalize_push [] ts"
  have mem: "kind u \<noteq> KUnion \<and> kind u \<noteq> KAny \<and> wellFormedNode u" if "u \<in> set ?flat" for u
    using wellFormedNode_flattened [OF assms(2) False] set_normalize_flat [of "[]" ts] that by auto
  have "\<forall>t \<in> set ts. kind t = KUnion \<longrightarrow> types t \<noteq> []"
  proof (intro ballI impI)
    fix t assume "t \<in> set ts" "kind t = KUnion"
    then obtain us where "t = UnionT us" "wellFormedNode t"
      using kind_cases(3) assms(2) by blast
    then show "types t \<noteq> []" by auto
  qed
  then have ne: "?flat \<noteq> []" using normalize_flat_nonempty [OF assms(1)] by blast
  show ?thesis
  proof (cases "length ?flat = 1")
    case True
    then have "hd ?flat \<in> set ?flat" using ne by simp
    then show ?thesis using mem True False by (simp add: normalizeUnionType_def)
  next
    case n1: False
    moreover have "length ?flat \<noteq> 0" using ne by simp
    ultimately have "2 \<le> length ?flat" by arith
    then show ?thesis using mem n1 False by (simp add: normalizeUnionType_def)
  qed
qed

lemma map_filter_entry:
  "(k, v) \<in> set (List.map_filter (\<lambda>k. map_option (Pair k) (g k)) ks) \<Longrightarrow> g k = Some v"
  by (induction ks) (auto simp: List.map_filter_simps split: option.splits)

lemma unifyTypes_wellFormed:
  "wellFormedNode a \<Longrightarrow> wellFormedNode b \<Longrightarrow> wellFormedNode (unifyTypes a b)"
proof (induction a arbitrary: b rule: TypeNode_induct)
  case (ArrayT x)
  show ?case
  proof (cases rule: unifyTypes_cases [where a = "ArrayT x" and b = b])
    case (array x' y')
    then show ?thesis using ArrayT by auto
  next
    case (unionR us)
    then show ?thesis using ArrayT.prems by (auto intro!: normalizeUnionType_wellFormed)
  next
    case mixed
    then show ?thesis using ArrayT.prems by (auto intro!: normalizeUnionType_wellFormed)
  qed (use ArrayT.prems in auto)
next
  case (UnionT ts)
  show ?case
  proof (cases rule: unifyTypes_cases [where a = "UnionT ts" and b = b])
    case (unionL ts')
    then show ?thesis using UnionT.prems by (auto intro!: normalizeUnionType_wellFormed)
  qed (use UnionT.prems in auto)
next
  case (ObjectT fs)
  show ?case
  proof (cases rule: unifyTypes_cases [where a = "ObjectT fs" and b = b])
    case (object fa fb)
    let ?fu = "List.map_filter (\<lambda>k. map_option (Pair k) (unifiedField fa fb k))
                    (Set_from (map fst fa @ map fst fb))"
    have d: "distinct (map fst ?fu)" by (simp add: distinct_map_filter)
    have "wellFormedNode t" if "(k, t, r) \<in> set ?fu" for k t r
    proof -
      from map_filter_entry [OF that] have u: "unifiedField fa fb k = Some (t, r)" .
      have wa: "wellFormedNode ta" if "map_of fa k = Some (ta, ra)" for ta ra
        using map_of_SomeD [OF that] ObjectT.prems(1) object(2) by auto
      have wb: "wellFormedNode tb" if "map_of fb k = Some (tb, rb)" for tb rb
        using map_of_SomeD [OF that] ObjectT.prems(2) object(3) by auto
      have wab: "wellFormedNode (unifyTypes ta tb)"
        if "map_of fa k = Some (ta, ra)" "map_of fb k = Some (tb, rb)" for ta ra tb rb
        using ObjectT.IH [of k ta ra tb] map_of_SomeD [OF that(1)] wa [OF that(1)] wb [OF that(2)]
          object(2) by auto
      show ?thesis
        using u wa wb wab by (auto simp: unifiedField_def split: option.splits)
    qed
    then show ?thesis using object(4) d by auto
  next
    case (unionR us)
    then show ?thesis using ObjectT.prems by (auto intro!: normalizeUnionType_wellFormed)
  next
    case mixed
    then show ?thesis using ObjectT.prems by (auto intro!: normalizeUnionType_wellFormed)
  qed (use ObjectT.prems in auto)
next
  case AnyT
  show ?case
    by (cases rule: unifyTypes_cases [where a = "AnyT" and b = b]) (use AnyT in \<open>auto intro!: normalizeUnionType_wellFormed\<close>)
next
  case NumberT
  show ?case
    by (cases rule: unifyTypes_cases [where a = "NumberT" and b = b]) (use NumberT in \<open>auto intro!: normalizeUnionType_wellFormed\<close>)
next
  case BooleanT
  show ?case
    by (cases rule: unifyTypes_cases [where a = "BooleanT" and b = b]) (use BooleanT in \<open>auto intro!: normalizeUnionType_wellFormed\<close>)
next
  case (StringT d e s)
  show ?case
    by (cases rule: unifyTypes_cases [where a = "StringT d e s" and b = b])
      (use StringT in \<open>auto intro!: normalizeUnionType_wellFormed\<close>)
qed

section \<open>Totality of the inference\<close>

lemma foldl_unifyTypes_wellFormed:
  "wellFormedNode n \<Longrightarrow> \<forall>t \<in> set ns. wellFormedNode t \<Longrightarrow> wellFormedNode (foldl unifyTypes n ns)"
  by (induction ns arbitrary: n) (auto intro: unifyTypes_wellFormed)

lemma set_Map_set: "set (Map_set k v m) \<subseteq> insert (k, v) (set m)"
  unfolding Map_set_def by (induction m) auto

lemma distinct_Map_set: "distinct (map fst m) \<Longrightarrow> distinct (map fst (Map_set k v m))"
  unfolding Map_set_def by (rule distinct_update)

lemma infer_total_aux:
  "(\<exists>t. inferTypeFromValue v opts = Inr t \<and> wellFormedNode t)"
  "(\<exists>ts. inferTypeFromValue_map vs opts = Inr ts \<and> length ts = length vs \<and>
         (\<forall>t \<in> set ts. wellFormedNode t))"
  "distinct (map fst fs) \<Longrightarrow> (\<forall>(k, t, r) \<in> set fs. wellFormedNode t) \<Longrightarrow>
   (\<exists>fs'. inferTypeFromValue_entries es opts fs = Inr fs' \<and> distinct (map fst fs') \<and>
          (\<forall>(k, t, r) \<in> set fs'. wellFormedNode t))"
proof (induction v opts and vs opts and es opts fs
    rule: inferTypeFromValue_inferTypeFromValue_map_inferTypeFromValue_entries.induct)
  case (5 v options)
  show ?case
  proof (cases "length v = 0")
    case True
    then show ?thesis by simp
  next
    case ne: False
    show ?thesis
    proof (cases "arrayContainsOnlyStrings v \<and> shouldUseStringEnumForArray v options")
      case True
      then show ?thesis using ne by simp
    next
      case False
      with 5 ne obtain ts where ts: "inferTypeFromValue_map v options = Inr ts"
        "length ts = length v" "\<forall>t \<in> set ts. wellFormedNode t"
        by blast
      with ne obtain n ns where n: "ts = n # ns" by (cases ts) auto
      with ts have "wellFormedNode (foldl unifyTypes n ns)"
        by (simp add: foldl_unifyTypes_wellFormed)
      then show ?thesis using ne False ts(1) n by auto
    qed
  qed
next
  case (6 es options)
  have "\<exists>fs'. inferTypeFromValue_entries es options [] = Inr fs' \<and> distinct (map fst fs') \<and>
          (\<forall>(k, t, r) \<in> set fs'. wellFormedNode t)"
    using 6 by simp
  then show ?case by auto
next
  case (9 v vs options)
  then show ?case by auto
next
  case (11 k v rest options fs)
  from 11(1) obtain t where t: "inferTypeFromValue v options = Inr t" "wellFormedNode t"
    by blast
  have d: "distinct (map fst (Map_set k (t, v \<noteq> JUndefined) fs))"
    using 11(3) by (rule distinct_Map_set)
  have w: "\<forall>(k', t', r') \<in> set (Map_set k (t, v \<noteq> JUndefined) fs). wellFormedNode t'"
    using set_Map_set [of k "(t, v \<noteq> JUndefined)" fs] 11(4) t(2) by auto
  show ?case
    using 11(2) [OF t(1) d w] t(1) by simp
qed simp_all

subsection \<open>The bounded stack\<close>

lemma fold_max_ge: "(a::nat) \<le> fold max xs a"
  by (induction xs arbitrary: a) (auto intro: order_trans [OF max.cobounded2])

lemma fold_max_mem: "(x::nat) \<in> set xs \<Longrightarrow> x \<le> fold max xs a"
proof (induction xs arbitrary: a)
  case (Cons y ys)
  show ?case
  proof (cases "x = y")
    case True
    have "y \<le> max y a" by simp
    also have "\<dots> \<le> fold max ys (max y a)" by (rule fold_max_ge)
    finally show ?thesis using True by simp
  next
    case False
    then show ?thesis using Cons by simp
  qed
qed simp







text \<open>
  The recursions of \<open>unifyTypes\<close> and \<open>areTypesEqual\<close> follow the nesting of
  the nodes they are given, and the node inferred for a value is nested no deeper
  than the value.
\<close>

lemma fold_max_mono: "(a::nat) \<le> b \<Longrightarrow> fold max xs a \<le> fold max xs b"
  by (induction xs arbitrary: a b) (auto intro: max.mono)

lemma depthWithin_mono: "depthWithin n t \<Longrightarrow> n \<le> m \<Longrightarrow> depthWithin m t"
proof (induction n t arbitrary: m rule: depthWithin.induct)
  case (2 n t)
  then show ?case by (cases m) auto
next
  case (5 n fs)
  then show ?case by (cases m) fastforce+
qed auto

lemma depthWithin_flattened:
  "\<forall>t \<in> set ts. depthWithin n t \<Longrightarrow> u \<in> set (flattened ts) \<Longrightarrow> depthWithin n u"
proof (induction ts)
  case (Cons t ts)
  show ?case
  proof (cases "kind t = KUnion")
    case True
    then obtain us where "t = UnionT us" using kind_cases(3) by blast
    then show ?thesis using Cons by auto
  next
    case False
    then show ?thesis using Cons by auto
  qed
qed simp

lemma depthWithin_normalizeUnionType:
  assumes "\<forall>t \<in> set ts. depthWithin n t"
  shows "depthWithin n (normalizeUnionType ts)"
proof -
  let ?flat = "foldl normalize_push [] ts"
  have mem: "depthWithin n u" if "u \<in> set ?flat" for u
    using depthWithin_flattened [OF assms] set_normalize_flat [of "[]" ts] that by auto
  have "depthWithin n (hd ?flat)" if "length ?flat = 1"
  proof -
    from that have "?flat \<noteq> []" by auto
    then have "hd ?flat \<in> set ?flat" by simp
    then show ?thesis by (rule mem)
  qed
  then show ?thesis
    using mem by (simp add: normalizeUnionType_def Let_def)
qed

lemma unifyTypes_depthWithin:
  "depthWithin n a \<Longrightarrow> depthWithin n b \<Longrightarrow> depthWithin n (unifyTypes a b)"
proof (induction a arbitrary: b n rule: TypeNode_induct)
  case (ArrayT x)
  show ?case
  proof (cases rule: unifyTypes_cases [where a = "ArrayT x" and b = b])
    case (array x' y')
    then show ?thesis using ArrayT by (cases n) auto
  qed (use ArrayT.prems in \<open>auto intro!: depthWithin_normalizeUnionType\<close>)
next
  case (UnionT ts)
  show ?case
    by (cases rule: unifyTypes_cases [where a = "UnionT ts" and b = b])
      (use UnionT.prems in \<open>auto intro!: depthWithin_normalizeUnionType\<close>)
next
  case (ObjectT fs)
  show ?case
  proof (cases rule: unifyTypes_cases [where a = "ObjectT fs" and b = b])
    case (object fa fb)
    from ObjectT.prems(1) obtain m where n: "n = Suc m" by (cases n) auto
    let ?fu = "List.map_filter (\<lambda>k. map_option (Pair k) (unifiedField fa fb k))
                    (Set_from (map fst fa @ map fst fb))"
    have "depthWithin m t" if "(k, t, r) \<in> set ?fu" for k t r
    proof -
      from map_filter_entry [OF that] have u: "unifiedField fa fb k = Some (t, r)" .
      have wa: "depthWithin m ta" if "map_of fa k = Some (ta, ra)" for ta ra
        using map_of_SomeD [OF that] ObjectT.prems(1) object(2) n by auto
      have wb: "depthWithin m tb" if "map_of fb k = Some (tb, rb)" for tb rb
        using map_of_SomeD [OF that] ObjectT.prems(2) object(3) n by auto
      have wab: "depthWithin m (unifyTypes ta tb)"
        if "map_of fa k = Some (ta, ra)" "map_of fb k = Some (tb, rb)" for ta ra tb rb
        using ObjectT.IH [of k ta ra m tb] map_of_SomeD [OF that(1)] wa [OF that(1)] wb [OF that(2)]
          object(2) by auto
      show ?thesis
        using u wa wb wab by (auto simp: unifiedField_def split: option.splits)
    qed
    then show ?thesis using object(4) n by auto
  qed (use ObjectT.prems in \<open>auto intro!: depthWithin_normalizeUnionType\<close>)
next
  case AnyT
  show ?case
    by (cases rule: unifyTypes_cases [where a = "AnyT" and b = b])
      (use AnyT in \<open>auto intro!: depthWithin_normalizeUnionType\<close>)
next
  case NumberT
  show ?case
    by (cases rule: unifyTypes_cases [where a = "NumberT" and b = b])
      (use NumberT in \<open>auto intro!: depthWithin_normalizeUnionType\<close>)
next
  case BooleanT
  show ?case
    by (cases rule: unifyTypes_cases [where a = "BooleanT" and b = b])
      (use BooleanT in \<open>auto intro!: depthWithin_normalizeUnionType\<close>)
next
  case (StringT d e s)
  show ?case
    by (cases rule: unifyTypes_cases [where a = "StringT d e s" and b = b])
      (use StringT in \<open>auto intro!: depthWithin_normalizeUnionType\<close>)
qed

lemma foldl_unifyTypes_depthWithin:
  "depthWithin m n \<Longrightarrow> \<forall>t \<in> set ns. depthWithin m t \<Longrightarrow> depthWithin m (foldl unifyTypes n ns)"
  by (induction ns arbitrary: n) (auto intro: unifyTypes_depthWithin)

lemma infer_depthWithin_aux:
  "(\<forall>t. inferTypeFromValue v opts = Inr t \<longrightarrow> depthWithin (nestingDepth v) t)"
  "(\<forall>ts. inferTypeFromValue_map vs opts = Inr ts \<longrightarrow>
      (\<forall>t \<in> set ts. depthWithin (fold max (map nestingDepth vs) 0) t))"
  "(\<forall>(k, t, r) \<in> set fs. depthWithin (fold max (map (\<lambda>(k, v). nestingDepth v) es) m) t) \<Longrightarrow>
   (\<forall>fs'. inferTypeFromValue_entries es opts fs = Inr fs' \<longrightarrow>
      (\<forall>(k, t, r) \<in> set fs'. depthWithin (fold max (map (\<lambda>(k, v). nestingDepth v) es) m) t))"
proof (induction v opts and vs opts and es opts fs arbitrary: and and m
    rule: inferTypeFromValue_inferTypeFromValue_map_inferTypeFromValue_entries.induct)
  case (5 v options)
  show ?case
  proof (intro allI impI)
    fix t assume r: "inferTypeFromValue (JArray v) options = Inr t"
    show "depthWithin (nestingDepth (JArray v)) t"
    proof (cases "length v = 0")
      case True
      then show ?thesis using r by auto
    next
      case ne: False
      show ?thesis
      proof (cases "arrayContainsOnlyStrings v \<and> shouldUseStringEnumForArray v options")
        case True
        then show ?thesis using r ne by auto
      next
        case False
        from r ne False obtain ts where ts: "inferTypeFromValue_map v options = Inr ts"
          by (auto split: sum.splits)
        have el: "\<forall>t \<in> set ts. depthWithin (fold max (map nestingDepth v) 0) t"
          using 5(1) [OF ne False] ts by blast
        from r ne False ts obtain n ns where n: "ts = n # ns" and t: "t = ArrayT (foldl unifyTypes n ns)"
          by (cases ts) auto
        show ?thesis
          using foldl_unifyTypes_depthWithin [of "fold max (map nestingDepth v) 0" n ns] el n t
          by simp
      qed
    qed
  qed
next
  case (6 es options)
  have "\<forall>fs'. inferTypeFromValue_entries es options [] = Inr fs' \<longrightarrow>
      (\<forall>(k, t, r) \<in> set fs'. depthWithin (fold max (map (\<lambda>(k, v). nestingDepth v) es) 0) t)"
    using 6 [of 0] by simp
  then show ?case by (auto split: sum.splits)
next
  case (9 v vs options)
  show ?case
  proof (intro allI impI ballI)
    fix ts t assume r: "inferTypeFromValue_map (v # vs) options = Inr ts" and m: "t \<in> set ts"
    from r obtain u us where u: "inferTypeFromValue v options = Inr u"
      and us: "inferTypeFromValue_map vs options = Inr us" and ts: "ts = u # us"
      by (auto split: sum.splits)
    have a: "depthWithin (nestingDepth v) u" using 9(1) u by blast
    have b: "\<forall>t \<in> set us. depthWithin (fold max (map nestingDepth vs) 0) t"
      using 9(2) [OF u] us by blast
    have "nestingDepth v \<le> fold max (map nestingDepth (v # vs)) 0"
      by (rule fold_max_mem) simp
    moreover have "fold max (map nestingDepth vs) 0 \<le> fold max (map nestingDepth (v # vs)) 0"
      by (simp add: fold_max_mono)
    ultimately show "depthWithin (fold max (map nestingDepth (v # vs)) 0) t"
      using a b m ts depthWithin_mono by auto
  qed
next
  case (11 k v rest options fs m)
  obtain t where t: "inferTypeFromValue v options = Inr t"
    using infer_total_aux(1) by blast
  let ?d = "fold max (map (\<lambda>(k, v). nestingDepth v) rest) (max (nestingDepth v) m)"
  have "depthWithin (nestingDepth v) t" using 11(1) t by blast
  moreover have "nestingDepth v \<le> ?d"
    using fold_max_ge [of "max (nestingDepth v) m"] by (meson max.cobounded1 order_trans)
  ultimately have a: "depthWithin ?d t" using depthWithin_mono by blast
  have p: "\<forall>(k', t', r') \<in> set fs. depthWithin ?d t'"
    using 11(3) by simp
  have q: "\<forall>(k', t', r') \<in> set (Map_set k (t, v \<noteq> JUndefined) fs). depthWithin ?d t'"
    using set_Map_set [of k "(t, v \<noteq> JUndefined)" fs] p a by auto
  have "\<forall>fs'. inferTypeFromValue_entries rest options (Map_set k (t, v \<noteq> JUndefined) fs) = Inr fs' \<longrightarrow>
      (\<forall>(k, t, r) \<in> set fs'. depthWithin ?d t)"
    using 11(2) [OF t q] .
  then show ?case using t by simp
qed auto

lemma infer_depthWithin:
  "inferTypeFromValue v options = Inr t \<Longrightarrow> depthWithin (nestingDepth v) t"
  using infer_depthWithin_aux(1) by blast




section \<open>Required fields of an inferred object\<close>

lemma infer_entries_required:
  assumes "\<forall>(k, v) \<in> set es. v \<noteq> JUndefined" and "\<forall>(k, t, r) \<in> set fs. r"
    and "inferTypeFromValue_entries es opts fs = Inr fs'"
  shows "\<forall>(k, t, r) \<in> set fs'. r"
  using assms
proof (induction es arbitrary: fs)
  case (Cons e es)
  obtain k v where e: "e = (k, v)" by (cases e)
  from Cons.prems(3) e obtain t where t: "inferTypeFromValue v opts = Inr t"
    and rest: "inferTypeFromValue_entries es opts (Map_set k (t, v \<noteq> JUndefined) fs) = Inr fs'"
    by (auto split: sum.splits)
  have "v \<noteq> JUndefined" using Cons.prems(1) e by auto
  then have "\<forall>(k', t', r') \<in> set (Map_set k (t, v \<noteq> JUndefined) fs). r'"
    using set_Map_set [of k "(t, v \<noteq> JUndefined)" fs] Cons.prems(2) by auto
  moreover have "\<forall>(k, v) \<in> set es. v \<noteq> JUndefined" using Cons.prems(1) by simp
  ultimately show ?case using Cons.IH rest by blast
qed simp

lemma isJsonValue_entries:
  "isJsonValue (JObject es) \<Longrightarrow> \<forall>(k, v) \<in> set es. v \<noteq> JUndefined"
  by auto

lemma allFieldsRequired_flattened:
  "\<forall>t \<in> set ts. allFieldsRequired t \<Longrightarrow> u \<in> set (flattened ts) \<Longrightarrow> allFieldsRequired u"
proof (induction ts)
  case (Cons t ts)
  show ?case
  proof (cases "kind t = KUnion")
    case True
    then obtain us where "t = UnionT us" using kind_cases(3) by blast
    then show ?thesis using Cons by auto
  next
    case False
    then show ?thesis using Cons by auto
  qed
qed simp

lemma allFieldsRequired_normalizeUnionType:
  assumes "\<forall>t \<in> set ts. allFieldsRequired t"
  shows "allFieldsRequired (normalizeUnionType ts)"
proof -
  let ?flat = "foldl normalize_push [] ts"
  have mem: "allFieldsRequired u" if "u \<in> set ?flat" for u
    using allFieldsRequired_flattened [OF assms] set_normalize_flat [of "[]" ts] that by auto
  have "allFieldsRequired (hd ?flat)" if "length ?flat = 1"
  proof -
    from that have "?flat \<noteq> []" by auto
    then have "hd ?flat \<in> set ?flat" by simp
    then show ?thesis by (rule mem)
  qed
  then show ?thesis
    using mem by (simp add: normalizeUnionType_def Let_def)
qed

lemma unifiesObjects_equal: "areTypesEqual a b \<Longrightarrow> \<not> unifiesObjects a b"
  by (induction a b rule: unifiesObjects.induct) (auto split: TypeNode.splits)

lemma unifyTypes_allFieldsRequired:
  "allFieldsRequired a \<Longrightarrow> allFieldsRequired b \<Longrightarrow> \<not> unifiesObjects a b \<Longrightarrow>
   allFieldsRequired (unifyTypes a b)"
proof (induction a arbitrary: b rule: TypeNode_induct)
  case (ArrayT x)
  show ?case
  proof (cases rule: unifyTypes_cases [where a = "ArrayT x" and b = b])
    case (array x' y')
    then show ?thesis using ArrayT by auto
  qed (use ArrayT.prems in \<open>auto intro!: allFieldsRequired_normalizeUnionType\<close>)
next
  case (UnionT ts)
  show ?case
    by (cases rule: unifyTypes_cases [where a = "UnionT ts" and b = b])
      (use UnionT.prems in \<open>auto intro!: allFieldsRequired_normalizeUnionType\<close>)
next
  case (ObjectT fs)
  show ?case
    by (cases rule: unifyTypes_cases [where a = "ObjectT fs" and b = b])
      (use ObjectT.prems in \<open>auto intro!: allFieldsRequired_normalizeUnionType\<close>)
next
  case AnyT
  show ?case
    by (cases rule: unifyTypes_cases [where a = "AnyT" and b = b])
      (use AnyT in \<open>auto intro!: allFieldsRequired_normalizeUnionType\<close>)
next
  case NumberT
  show ?case
    by (cases rule: unifyTypes_cases [where a = "NumberT" and b = b])
      (use NumberT in \<open>auto intro!: allFieldsRequired_normalizeUnionType\<close>)
next
  case BooleanT
  show ?case
    by (cases rule: unifyTypes_cases [where a = "BooleanT" and b = b])
      (use BooleanT in \<open>auto intro!: allFieldsRequired_normalizeUnionType\<close>)
next
  case (StringT d e s)
  show ?case
    by (cases rule: unifyTypes_cases [where a = "StringT d e s" and b = b])
      (use StringT in \<open>auto intro!: allFieldsRequired_normalizeUnionType\<close>)
qed


lemma unifiesObjects_contains:
  "unifiesObjects a b \<Longrightarrow> containsObjectNode a \<and> containsObjectNode b"
  by (induction a b rule: unifiesObjects.induct) auto

lemma containsObjectNode_flattened:
  "u \<in> set (flattened ts) \<Longrightarrow> containsObjectNode u \<Longrightarrow> \<exists>t \<in> set ts. containsObjectNode t"
proof (induction ts)
  case (Cons t ts)
  show ?case
  proof (cases "kind t = KUnion")
    case True
    then obtain us where "t = UnionT us" using kind_cases(3) by blast
    then show ?thesis using Cons by auto
  next
    case False
    then show ?thesis using Cons by auto
  qed
qed simp

lemma containsObjectNode_normalizeUnionType:
  assumes "containsObjectNode (normalizeUnionType ts)"
  shows "\<exists>t \<in> set ts. containsObjectNode t"
proof -
  let ?flat = "foldl normalize_push [] ts"
  have mem: "\<exists>t \<in> set ts. containsObjectNode t" if "u \<in> set ?flat" "containsObjectNode u" for u
    using containsObjectNode_flattened [of u ts] set_normalize_flat [of "[]" ts] that by auto
  show ?thesis
  proof (cases "list_ex (\<lambda>t. kind t = KAny) ts")
    case True
    then show ?thesis using assms by (simp add: normalizeUnionType_def)
  next
    case False
    show ?thesis
    proof (cases "length ?flat = 1")
      case True
      then have "?flat \<noteq> []" by auto
      then have "hd ?flat \<in> set ?flat" by simp
      moreover have "containsObjectNode (hd ?flat)"
        using assms True False by (simp add: normalizeUnionType_def)
      ultimately show ?thesis using mem by blast
    next
      case n1: False
      then have "containsObjectNode (UnionT ?flat)"
        using assms False by (simp add: normalizeUnionType_def)
      then show ?thesis using mem by auto
    qed
  qed
qed

lemma unifyTypes_containsObjectNode:
  "containsObjectNode (unifyTypes a b) \<Longrightarrow> containsObjectNode a \<or> containsObjectNode b"
proof (induction a arbitrary: b rule: TypeNode_induct)
  case (ArrayT x)
  show ?case
  proof (cases rule: unifyTypes_cases [where a = "ArrayT x" and b = b])
    case (array x' y')
    then show ?thesis using ArrayT by auto
  qed (use ArrayT.prems in \<open>auto dest!: containsObjectNode_normalizeUnionType\<close>)
next
  case (UnionT ts)
  show ?case
    by (cases rule: unifyTypes_cases [where a = "UnionT ts" and b = b])
      (use UnionT.prems in \<open>auto dest!: containsObjectNode_normalizeUnionType\<close>)
next
  case (ObjectT fs)
  show ?case by simp
next
  case AnyT
  show ?case
    by (cases rule: unifyTypes_cases [where a = "AnyT" and b = b])
      (use AnyT in \<open>auto dest!: containsObjectNode_normalizeUnionType\<close>)
next
  case NumberT
  show ?case
    by (cases rule: unifyTypes_cases [where a = "NumberT" and b = b])
      (use NumberT in \<open>auto dest!: containsObjectNode_normalizeUnionType\<close>)
next
  case BooleanT
  show ?case
    by (cases rule: unifyTypes_cases [where a = "BooleanT" and b = b])
      (use BooleanT in \<open>auto dest!: containsObjectNode_normalizeUnionType\<close>)
next
  case (StringT d e s)
  show ?case
    by (cases rule: unifyTypes_cases [where a = "StringT d e s" and b = b])
      (use StringT in \<open>auto dest!: containsObjectNode_normalizeUnionType\<close>)
qed

lemma foldl_unifyTypes_containsObjectNode:
  "containsObjectNode (foldl unifyTypes n ns) \<Longrightarrow> \<exists>t \<in> set (n # ns). containsObjectNode t"
proof (induction ns arbitrary: n)
  case (Cons x ns)
  then have "\<exists>t \<in> set (unifyTypes n x # ns). containsObjectNode t" by simp
  then show ?case using unifyTypes_containsObjectNode [of n x] by auto
qed simp

lemma foldl_unifyTypes_allFieldsRequired:
  "allFieldsRequired n \<Longrightarrow> \<forall>t \<in> set ns. allFieldsRequired t \<Longrightarrow>
   length (filter containsObjectNode (n # ns)) \<le> 1 \<Longrightarrow>
   allFieldsRequired (foldl unifyTypes n ns)"
proof (induction ns arbitrary: n)
  case (Cons x ns)
  have "\<not> (containsObjectNode n \<and> containsObjectNode x)"
    using Cons.prems(3) by auto
  then have nu: "\<not> unifiesObjects n x"
    using unifiesObjects_contains by blast
  have r: "allFieldsRequired (unifyTypes n x)"
    using Cons.prems(1,2) nu by (simp add: unifyTypes_allFieldsRequired)
  have "containsObjectNode (unifyTypes n x) \<Longrightarrow> containsObjectNode n \<or> containsObjectNode x"
    by (rule unifyTypes_containsObjectNode)
  then have "length (filter containsObjectNode (unifyTypes n x # ns)) \<le>
             length (filter containsObjectNode (n # x # ns))"
    by auto
  then have c: "length (filter containsObjectNode (unifyTypes n x # ns)) \<le> 1"
    using Cons.prems(3) by linarith
  show ?case
    using Cons.IH [OF r _ c] Cons.prems(2) by simp
qed simp

lemma filter_length_mono:
  "list_all2 (\<lambda>v t. Q t \<longrightarrow> P v) vs ts \<Longrightarrow> length (filter Q ts) \<le> length (filter P vs)"
  by (induction vs ts rule: list_all2_induct) auto

lemma fields_containsObjectNode: "containsObjectNode (ObjectT fs)"
  by simp

lemma infer_required_aux:
  "isJsonValue v \<Longrightarrow> oneObjectSample v \<Longrightarrow>
   (\<forall>t. inferTypeFromValue v opts = Inr t \<longrightarrow>
      allFieldsRequired t \<and> (containsObjectNode t \<longrightarrow> containsObject v))"
  "(\<forall>v \<in> set vs. isJsonValue v \<and> oneObjectSample v) \<Longrightarrow>
   (\<forall>ts. inferTypeFromValue_map vs opts = Inr ts \<longrightarrow>
      (\<forall>t \<in> set ts. allFieldsRequired t) \<and>
      list_all2 (\<lambda>v t. containsObjectNode t \<longrightarrow> containsObject v) vs ts)"
  "(\<forall>(k, v) \<in> set es. isJsonValue v \<and> oneObjectSample v) \<Longrightarrow>
   (\<forall>(k, t, r) \<in> set fs. r \<and> allFieldsRequired t) \<Longrightarrow>
   (\<forall>fs'. inferTypeFromValue_entries es opts fs = Inr fs' \<longrightarrow>
      (\<forall>(k, t, r) \<in> set fs'. r \<and> allFieldsRequired t))"
proof (induction v opts and vs opts and es opts fs
    rule: inferTypeFromValue_inferTypeFromValue_map_inferTypeFromValue_entries.induct)
  case (5 v options)
  show ?case
  proof (intro allI impI)
    fix t assume r: "inferTypeFromValue (JArray v) options = Inr t"
    show "allFieldsRequired t \<and> (containsObjectNode t \<longrightarrow> containsObject (JArray v))"
    proof (cases "length v = 0")
      case True
      then show ?thesis using r by auto
    next
      case ne: False
      show ?thesis
      proof (cases "arrayContainsOnlyStrings v \<and> shouldUseStringEnumForArray v options")
        case True
        then show ?thesis using r ne by auto
      next
        case False
        from r ne False obtain ts where ts: "inferTypeFromValue_map v options = Inr ts"
          by (auto split: sum.splits)
        have el: "\<forall>v' \<in> set v. isJsonValue v' \<and> oneObjectSample v'"
          using 5(2,3) by auto
        have req: "\<forall>t \<in> set ts. allFieldsRequired t"
          and rel: "list_all2 (\<lambda>v t. containsObjectNode t \<longrightarrow> containsObject v) v ts"
          using 5(1) [OF ne False el] ts by auto
        from rel ne obtain n ns where n: "ts = n # ns"
          by (cases ts) auto
        have t: "t = ArrayT (foldl unifyTypes n ns)"
          using r ne False ts n by auto
        have "length (filter containsObjectNode ts) \<le> length (filter containsObject v)"
          using rel by (rule filter_length_mono)
        also have "\<dots> \<le> 1" using 5(3) by simp
        finally have one: "length (filter containsObjectNode (n # ns)) \<le> 1" using n by simp
        have a: "allFieldsRequired t"
          using foldl_unifyTypes_allFieldsRequired [OF _ _ one] req n t by simp
        have b: "containsObject (JArray v)" if "containsObjectNode t"
        proof -
          have "\<exists>u \<in> set ts. containsObjectNode u"
            using that t n foldl_unifyTypes_containsObjectNode [of n ns] by simp
          then obtain u where "u \<in> set ts" "containsObjectNode u" by blast
          then obtain i where "i < length ts" "containsObjectNode (ts ! i)"
            by (auto simp: in_set_conv_nth)
          then have "containsObject (v ! i)" "i < length v"
            using rel by (auto simp: list_all2_conv_all_nth)
          then show ?thesis by auto
        qed
        show ?thesis using a b by blast
      qed
    qed
  qed
next
  case (6 es options)
  have es: "\<forall>(k, v) \<in> set es. isJsonValue v \<and> oneObjectSample v"
    using 6(2,3) by auto
  have "\<forall>fs'. inferTypeFromValue_entries es options [] = Inr fs' \<longrightarrow>
      (\<forall>(k, t, r) \<in> set fs'. r \<and> allFieldsRequired t)"
    using 6(1) [OF es] by simp
  then show ?case by (auto split: sum.splits)
next
  case (9 v vs options)
  then show ?case by (auto split: sum.splits)
next
  case (11 k v rest options fs)
  show ?case
  proof (intro allI impI)
    fix fs' assume r: "inferTypeFromValue_entries ((k, v) # rest) options fs = Inr fs'"
    then obtain t where t: "inferTypeFromValue v options = Inr t"
      and rest: "inferTypeFromValue_entries rest options (Map_set k (t, v \<noteq> JUndefined) fs) = Inr fs'"
      by (auto split: sum.splits)
    have v: "isJsonValue v" "oneObjectSample v" using 11(3) by auto
    then have "allFieldsRequired t" using 11(1) t by blast
    moreover have "v \<noteq> JUndefined" using v(1) by auto
    ultimately have "\<forall>(k', t', r') \<in> set (Map_set k (t, v \<noteq> JUndefined) fs). r' \<and> allFieldsRequired t'"
      using set_Map_set [of k "(t, v \<noteq> JUndefined)" fs] 11(4) by auto
    then show "\<forall>(k, t, r) \<in> set fs'. r \<and> allFieldsRequired t"
      using 11(2) [OF t] 11(3) rest by auto
  qed
qed auto


lemma keys_Map_set: "fst ` set (Map_set k v m) = insert k (fst ` set m)"
  unfolding Map_set_def by (simp add: dom_update)

lemma infer_entries_fields:
  assumes "inferTypeFromValue_entries es opts fs = Inr fs'"
  shows "fst ` set fs' = fst ` set fs \<union> fst ` set es \<and>
         (\<forall>(k, t, r) \<in> set fs'. (k, t, r) \<in> set fs \<or>
            (\<exists>v. (k, v) \<in> set es \<and> inferTypeFromValue v opts = Inr t))"
  using assms
proof (induction es arbitrary: fs)
  case (Cons e es)
  obtain k v where e: "e = (k, v)" by (cases e)
  from Cons.prems e obtain t where t: "inferTypeFromValue v opts = Inr t"
    and rest: "inferTypeFromValue_entries es opts (Map_set k (t, v \<noteq> JUndefined) fs) = Inr fs'"
    by (auto split: sum.splits)
  let ?m = "Map_set k (t, v \<noteq> JUndefined) fs"
  from Cons.IH [OF rest]
  have keys: "fst ` set fs' = fst ` set ?m \<union> fst ` set es"
    and ent: "\<forall>(k', t', r') \<in> set fs'. (k', t', r') \<in> set ?m \<or>
            (\<exists>v'. (k', v') \<in> set es \<and> inferTypeFromValue v' opts = Inr t')"
    by blast+
  have "fst ` set fs' = fst ` set fs \<union> fst ` set (e # es)"
    using keys e by (simp add: keys_Map_set)
  moreover have "(k', t', r') \<in> set fs \<or>
            (\<exists>v'. (k', v') \<in> set (e # es) \<and> inferTypeFromValue v' opts = Inr t')"
    if "(k', t', r') \<in> set fs'" for k' t' r'
  proof -
    from ent that consider "(k', t', r') \<in> set ?m"
      | "\<exists>v'. (k', v') \<in> set es \<and> inferTypeFromValue v' opts = Inr t'"
      by blast
    then show ?thesis
    proof cases
      case 1
      then have "(k', t', r') = (k, t, v \<noteq> JUndefined) \<or> (k', t', r') \<in> set fs"
        using set_Map_set [of k "(t, v \<noteq> JUndefined)" fs] by auto
      then show ?thesis using t e by auto
    next
      case 2
      then show ?thesis by auto
    qed
  qed
  ultimately show ?case by blast
qed simp

text \<open>
  Two object samples with different keys in one array are unified, and their fields
  become optional.
\<close>

lemma infer_object_samples_optional:
  "inferTypeFromValue (JArray [JObject [(''x'', JNumber 1)], JObject [(''y'', JNumber 2)]])
     defaultOptions =
   Inr (ArrayT (ObjectT [(''x'', NumberT, False), (''y'', NumberT, False)]))"
  by (simp add: unifyTypes.simps arrayContainsOnlyStrings_def Set_from_def Set_add_def
      Map_set_def)

text \<open>
  Claim C10. For every JSON object value (no \<open>undefined\<close> inside), the node one
  call of \<open>inferTypeFromValue\<close> returns is an object node with the keys of the
  value; every field of it has \<open>required = true\<close> and holds the node inferred for
  a value of its key. A field can become optional only through the unification of
  object samples: when every field of \<open>a\<close> and of \<open>b\<close> is required, at every
  depth, and \<open>unifyTypes a b\<close> does not reach its object case, every field of the
  result is required; and for a JSON value in which every array has at most one
  element with an object inside, so that no two object samples are unified, every
  field of every object node of the inferred node is required, at every depth.
\<close>

theorem infer_object_fields_required:
  "(isJsonValue (JObject es) \<longrightarrow>
      (\<exists>fs. inferTypeFromValue (JObject es) options = Inr (ObjectT fs) \<and>
            fst ` set fs = fst ` set es \<and>
            (\<forall>(k, t, r) \<in> set fs.
               r \<and> (\<exists>v. (k, v) \<in> set es \<and> inferTypeFromValue v options = Inr t)))) \<and>
   (allFieldsRequired a \<and> allFieldsRequired b \<and> \<not> unifiesObjects a b \<longrightarrow>
      allFieldsRequired (unifyTypes a b)) \<and>
   (isJsonValue v \<and> oneObjectSample v \<longrightarrow>
      (\<exists>t. inferTypeFromValue v options = Inr t \<and> allFieldsRequired t))"
proof (intro conjI impI)
  assume j: "isJsonValue (JObject es)"
  obtain t where t: "inferTypeFromValue (JObject es) options = Inr t"
    using infer_total_aux(1) by blast
  then obtain fs where fs: "inferTypeFromValue_entries es options [] = Inr fs" "t = ObjectT fs"
    by (auto split: sum.splits)
  have r: "\<forall>(k, t, r) \<in> set fs. r"
    using infer_entries_required [OF isJsonValue_entries [OF j] _ fs(1)] by simp
  have "fst ` set fs = fst ` set es" and
    "\<forall>(k, t, r) \<in> set fs. \<exists>v. (k, v) \<in> set es \<and> inferTypeFromValue v options = Inr t"
    using infer_entries_fields [OF fs(1)] by auto
  then show "\<exists>fs. inferTypeFromValue (JObject es) options = Inr (ObjectT fs) \<and>
            fst ` set fs = fst ` set es \<and>
            (\<forall>(k, t, r) \<in> set fs.
               r \<and> (\<exists>v. (k, v) \<in> set es \<and> inferTypeFromValue v options = Inr t))"
    using t fs(2) r by (intro exI [of _ fs]) auto
next
  assume "allFieldsRequired a \<and> allFieldsRequired b \<and> \<not> unifiesObjects a b"
  then show "allFieldsRequired (unifyTypes a b)"
    by (simp add: unifyTypes_allFieldsRequired)
next
  assume h: "isJsonValue v \<and> oneObjectSample v"
  obtain t where t: "inferTypeFromValue v options = Inr t"
    using infer_total_aux(1) by blast
  then have "allFieldsRequired t"
    using infer_required_aux(1) [of v options] h by blast
  then show "\<exists>t. inferTypeFromValue v options = Inr t \<and> allFieldsRequired t"
    using t by blast
qed

theorem infer_object_fields_required_witness:
  "isJsonValue (JObject [(''a'', JArray [JObject [(''x'', JNumber 1)], JNumber 5]),
                         (''b'', JObject [(''c'', JNumber 1)])]) \<and>
   oneObjectSample (JObject [(''a'', JArray [JObject [(''x'', JNumber 1)], JNumber 5]),
                             (''b'', JObject [(''c'', JNumber 1)])]) \<and>
   allFieldsRequired (ObjectT [(''x'', NumberT, True)]) \<and> allFieldsRequired NumberT \<and>
   \<not> unifiesObjects (ObjectT [(''x'', NumberT, True)]) NumberT \<and>
   (\<exists>fs. inferTypeFromValue
            (JObject [(''a'', JArray [JObject [(''x'', JNumber 1)], JNumber 5]),
                      (''b'', JObject [(''c'', JNumber 1)])]) defaultOptions = Inr (ObjectT fs) \<and>
         fst ` set fs = {''a'', ''b''} \<and> (\<forall>(k, t, r) \<in> set fs. r)) \<and>
   allFieldsRequired (unifyTypes (ObjectT [(''x'', NumberT, True)]) NumberT) \<and>
   (\<exists>t. inferTypeFromValue
            (JObject [(''a'', JArray [JObject [(''x'', JNumber 1)], JNumber 5]),
                      (''b'', JObject [(''c'', JNumber 1)])]) defaultOptions = Inr t \<and>
        allFieldsRequired t)"
proof -
  let ?es = "[(''a'', JArray [JObject [(''x'', JNumber 1)], JNumber 5]),
              (''b'', JObject [(''c'', JNumber 1)])]"
  let ?a = "ObjectT [(''x'', NumberT, True)]"
  have h: "isJsonValue (JObject ?es)" by simp
  have s: "oneObjectSample (JObject ?es)" by simp
  have r: "allFieldsRequired ?a \<and> allFieldsRequired NumberT \<and> \<not> unifiesObjects ?a NumberT"
    by simp
  have k: "fst ` set ?es = {''a'', ''b''}" by simp
  note t = infer_object_fields_required [of ?es defaultOptions ?a NumberT "JObject ?es"]
  from t h have "\<exists>fs. inferTypeFromValue (JObject ?es) defaultOptions = Inr (ObjectT fs) \<and>
            fst ` set fs = fst ` set ?es \<and>
            (\<forall>(k, t, r) \<in> set fs.
               r \<and> (\<exists>v. (k, v) \<in> set ?es \<and> inferTypeFromValue v defaultOptions = Inr t))"
    by blast
  then obtain fs where a: "inferTypeFromValue (JObject ?es) defaultOptions = Inr (ObjectT fs)"
    and b: "fst ` set fs = fst ` set ?es"
    and c: "\<forall>(k, t, r) \<in> set fs.
               r \<and> (\<exists>v. (k, v) \<in> set ?es \<and> inferTypeFromValue v defaultOptions = Inr t)"
    by blast
  from c have "\<forall>(k, t, r) \<in> set fs. r" by fast
  with a b k have fs: "\<exists>fs. inferTypeFromValue (JObject ?es) defaultOptions = Inr (ObjectT fs) \<and>
         fst ` set fs = {''a'', ''b''} \<and> (\<forall>(k, t, r) \<in> set fs. r)"
    by (intro exI [of _ fs]) (simp only: simp_thms)
  from t r have u: "allFieldsRequired (unifyTypes ?a NumberT)" by blast
  from t h s have v: "\<exists>t. inferTypeFromValue (JObject ?es) defaultOptions = Inr t \<and>
        allFieldsRequired t"
    by blast
  show ?thesis
    using h s r fs u v by blast
qed

section \<open>String enums\<close>

text \<open>The node \<open>inferTypeFromValue\<close> returns for one string.\<close>

definition stringNode :: "InferOptions \<Rightarrow> string \<Rightarrow> TypeNode" where
  "stringNode options s =
     StringT (Some (detectDatesFromIsoStrings options \<and> isIsoLikeDateString s)) None (Some s)"

lemma infer_map_strings:
  "arrayContainsOnlyStrings vs \<Longrightarrow>
   inferTypeFromValue_map vs options = Inr (map (\<lambda>v. stringNode options (String_conv v)) vs)"
proof (induction vs)
  case (Cons v vs)
  then obtain s where "v = JString s"
    by (cases v) (auto simp: arrayContainsOnlyStrings_def)
  then show ?case
    using Cons by (simp add: arrayContainsOnlyStrings_def stringNode_def)
qed simp

lemma unifyTypes_plain_strings:
  "\<exists>d s. unifyTypes (StringT (Some d1) None s1) (StringT (Some d2) None s2) = StringT (Some d) None s"
proof (cases "areTypesEqual (StringT (Some d1) None s1) (StringT (Some d2) None s2)")
  case True
  then show ?thesis using unifyTypes_equal by blast
next
  case False
  show ?thesis
    using unifyTypes_strings [OF False] by (auto simp: mergeStringLiteralSets_def)
qed

lemma foldl_unifyTypes_plain_strings:
  "\<forall>t \<in> set ns. \<exists>d s. t = StringT (Some d) None s \<Longrightarrow>
   \<exists>d s. foldl unifyTypes (StringT (Some d0) None s0) ns = StringT (Some d) None s"
proof (induction ns arbitrary: d0 s0)
  case (Cons n ns)
  then obtain d1 s1 where n: "n = StringT (Some d1) None s1" by auto
  obtain d s where "unifyTypes (StringT (Some d0) None s0) n = StringT (Some d) None s"
    using unifyTypes_plain_strings n by blast
  then show ?case using Cons by simp
qed simp

lemma shouldUseStringEnumForArray_iff:
  "shouldUseStringEnumForArray vs options \<longleftrightarrow>
   (stringEnumMinUniqueValues options \<le> real (length (Set_from (map String_conv vs))) \<and>
    real (length (Set_from (map String_conv vs))) \<le> stringEnumMaxUniqueValues options \<and>
    (\<forall>s \<in> set (Set_from (map String_conv vs)). 0 < length s \<and> length s \<le> 20 \<and> isTokenString s))"
  by (auto simp: shouldUseStringEnumForArray_def Let_def list_all_iff)

lemma Set_from_aux_first_seen:
  "foldl Set_add acc xs = acc @ filter (\<lambda>x. x \<notin> set acc) (distinctFirstSeen xs)"
proof (induction xs arbitrary: acc)
  case (Cons x xs)
  show ?case
  proof (cases "x \<in> set acc")
    case True
    have "filter (\<lambda>y. y \<notin> set acc) (removeAll x (distinctFirstSeen xs)) =
          filter (\<lambda>y. y \<notin> set acc) (distinctFirstSeen xs)"
      using True by (auto simp: removeAll_filter_not_eq intro: filter_cong)
    then show ?thesis using True Cons [of acc] by (simp add: Set_add_def)
  next
    case False
    have "filter (\<lambda>y. y \<notin> set (acc @ [x])) (distinctFirstSeen xs) =
          filter (\<lambda>y. y \<notin> set acc) (removeAll x (distinctFirstSeen xs))"
      by (auto simp: removeAll_filter_not_eq intro: filter_cong)
    then show ?thesis using False Cons [of "acc @ [x]"] by (simp add: Set_add_def)
  qed
qed simp

lemma Set_from_first_seen: "Set_from xs = distinctFirstSeen xs"
  using Set_from_aux_first_seen [of "[]" xs] by (simp add: Set_from_def)

lemma arrayContainsOnlyStrings_map: "arrayContainsOnlyStrings (map JString ss)"
  by (simp add: arrayContainsOnlyStrings_def list_all_iff)

lemma String_conv_map: "map String_conv (map JString ss) = ss"
  by (induction ss) simp_all

text \<open>
  The empty array is decided by the rule that comes first, whatever the options.
\<close>

lemma infer_empty_array: "inferTypeFromValue (JArray []) options = Inr (ArrayT AnyT)"
  by simp

text \<open>
  Claim C4. Let \<open>ss\<close> be a non-empty list of strings. The inference on the array
  of these strings yields \<open>items\<close> = a string node whose \<open>enumValues\<close> are the
  distinct values in first-seen order exactly when the number of distinct values
  lies within \<open>[stringEnumMinUniqueValues, stringEnumMaxUniqueValues]\<close> and every
  distinct value is non-empty, at most 20 characters long and matches
  \<open>[A-Za-z0-9_-]+\<close>. In that case the item node carries the enum values and
  nothing else; in the other case it is a string node without \<open>enumValues\<close>.
  The two examples of the claim, \<open>["a", "b"]\<close> and \<open>["a"]\<close> under the default
  thresholds 2 and 12, follow.
\<close>

theorem infer_string_array_enum:
  assumes "ss \<noteq> []"
  shows
    "((\<exists>d s. inferTypeFromValue (JArray (map JString ss)) options =
              Inr (ArrayT (StringT d (Some (distinctFirstSeen ss)) s))) \<longleftrightarrow>
      (stringEnumMinUniqueValues options \<le> real (length (distinctFirstSeen ss)) \<and>
       real (length (distinctFirstSeen ss)) \<le> stringEnumMaxUniqueValues options \<and>
       (\<forall>s \<in> set (distinctFirstSeen ss). s \<noteq> [] \<and> length s \<le> 20 \<and> isTokenString s))) \<and>
     ((stringEnumMinUniqueValues options \<le> real (length (distinctFirstSeen ss)) \<and>
       real (length (distinctFirstSeen ss)) \<le> stringEnumMaxUniqueValues options \<and>
       (\<forall>s \<in> set (distinctFirstSeen ss). s \<noteq> [] \<and> length s \<le> 20 \<and> isTokenString s)) \<longrightarrow>
      inferTypeFromValue (JArray (map JString ss)) options =
        Inr (ArrayT (StringT None (Some (distinctFirstSeen ss)) None))) \<and>
     (\<not> (stringEnumMinUniqueValues options \<le> real (length (distinctFirstSeen ss)) \<and>
       real (length (distinctFirstSeen ss)) \<le> stringEnumMaxUniqueValues options \<and>
       (\<forall>s \<in> set (distinctFirstSeen ss). s \<noteq> [] \<and> length s \<le> 20 \<and> isTokenString s)) \<longrightarrow>
      (\<exists>d s. inferTypeFromValue (JArray (map JString ss)) options =
              Inr (ArrayT (StringT (Some d) None s))))"
proof -
  let ?vs = "map JString ss"
  let ?cond = "stringEnumMinUniqueValues options \<le> real (length (distinctFirstSeen ss)) \<and>
       real (length (distinctFirstSeen ss)) \<le> stringEnumMaxUniqueValues options \<and>
       (\<forall>s \<in> set (distinctFirstSeen ss). s \<noteq> [] \<and> length s \<le> 20 \<and> isTokenString s)"
  have u: "Set_from (map String_conv ?vs) = distinctFirstSeen ss"
    by (simp only: String_conv_map Set_from_first_seen)
  have c: "?cond \<longleftrightarrow> shouldUseStringEnumForArray ?vs options"
    unfolding shouldUseStringEnumForArray_iff u by auto
  have ne: "length ?vs \<noteq> 0" using assms by simp
  have yes: "inferTypeFromValue (JArray ?vs) options =
        Inr (ArrayT (StringT None (Some (distinctFirstSeen ss)) None))" if "?cond"
  proof -
    from that c have "shouldUseStringEnumForArray ?vs options" by blast
    then show ?thesis
      using ne arrayContainsOnlyStrings_map [of ss] u by (simp del: map_map)
  qed
  have no: "\<exists>d s. inferTypeFromValue (JArray ?vs) options = Inr (ArrayT (StringT (Some d) None s))"
    if "\<not> ?cond"
  proof -
    from that c have n: "\<not> shouldUseStringEnumForArray ?vs options" by blast
    obtain x xs where ss: "ss = x # xs" using assms by (cases ss) auto
    have m: "inferTypeFromValue_map ?vs options =
               Inr (map (\<lambda>v. stringNode options (String_conv v)) ?vs)"
      by (rule infer_map_strings [OF arrayContainsOnlyStrings_map])
    have "\<exists>d s. foldl unifyTypes (stringNode options x)
                  (map (\<lambda>v. stringNode options (String_conv v)) (map JString xs)) =
                StringT (Some d) None s"
      unfolding stringNode_def
      by (rule foldl_unifyTypes_plain_strings) (auto simp: stringNode_def)
    then show ?thesis
      using n m ss by (auto simp del: map_map)
  qed
  have iff: "(\<exists>d s. inferTypeFromValue (JArray ?vs) options =
              Inr (ArrayT (StringT d (Some (distinctFirstSeen ss)) s))) \<longleftrightarrow> ?cond"
  proof
    assume l: "\<exists>d s. inferTypeFromValue (JArray ?vs) options =
              Inr (ArrayT (StringT d (Some (distinctFirstSeen ss)) s))"
    show "?cond"
    proof (rule ccontr)
      assume "\<not> ?cond"
      from no [OF this] l show False by auto
    qed
  next
    assume "?cond"
    from yes [OF this] show "\<exists>d s. inferTypeFromValue (JArray ?vs) options =
              Inr (ArrayT (StringT d (Some (distinctFirstSeen ss)) s))"
      by blast
  qed
  show ?thesis
    using iff yes no by blast
qed

theorem infer_string_array_enum_witness:
  "[''a'', ''b''] \<noteq> [] \<and>
   inferTypeFromValue (JArray (map JString [''a'', ''b''])) defaultOptions =
     Inr (ArrayT (StringT None (Some [''a'', ''b'']) None)) \<and>
   [''a''] \<noteq> [] \<and>
   (\<exists>d s. inferTypeFromValue (JArray (map JString [''a''])) defaultOptions =
      Inr (ArrayT (StringT (Some d) None s)))"
proof -
  have n2: "[''a'', ''b''] \<noteq> []" by simp
  have n1: "[''a''] \<noteq> []" by simp
  have "inferTypeFromValue (JArray (map JString [''a'', ''b''])) defaultOptions =
     Inr (ArrayT (StringT None (Some [''a'', ''b'']) None))"
    using infer_string_array_enum [OF n2, of defaultOptions]
    by (simp add: defaultOptions_def isTokenString_def isWordChar_def)
  moreover have "\<exists>d s. inferTypeFromValue (JArray (map JString [''a''])) defaultOptions =
      Inr (ArrayT (StringT (Some d) None s))"
    using infer_string_array_enum [OF n1, of defaultOptions]
    by (simp add: defaultOptions_def)
  ultimately show ?thesis by blast
qed

section \<open>Normalization of unions\<close>

text \<open>
  Claim C2 says that the members of a normalized union are deduplicated by
  structural equality. The loop of \<open>normalizeUnionType\<close> tests a member against
  the members kept so far only when the member is not itself a union; the members of
  a nested union are appended unchecked. Unifying the unions \<open>number | string\<close> and
  \<open>string | boolean\<close> therefore yields a union with the string node twice, and so
  does the inference on \<open>[[1, "x"], ["x", true]]\<close>.
\<close>

theorem normalize_keeps_duplicate_members:
  "unifyTypes (UnionT [NumberT, StringT (Some False) None (Some ''x'')])
              (UnionT [StringT (Some False) None (Some ''x''), BooleanT]) =
     UnionT [NumberT, StringT (Some False) None (Some ''x''),
             StringT (Some False) None (Some ''x''), BooleanT] \<and>
   areTypesEqual (StringT (Some False) None (Some ''x'')) (StringT (Some False) None (Some ''x'')) \<and>
   inferTypeFromValue
     (JArray [JArray [JNumber 1, JString ''x''], JArray [JString ''x'', JBoolean True]])
     defaultOptions =
     Inr (ArrayT (ArrayT (UnionT [NumberT, StringT (Some False) None (Some ''x''),
                                  StringT (Some False) None (Some ''x''), BooleanT])))"
  by (simp add: unifyTypes.simps normalizeUnionType_def normalize_push_def
      arrayContainsOnlyStrings_def defaultOptions_def isIsoLikeDateString_def matchDate_def
      isDigit_def eval_nat_numeral)

section \<open>Facts about shapes\<close>

lemma remdups_singleton_iff: "remdups xs = [x] \<longleftrightarrow> set xs = {x}"
proof
  assume "remdups xs = [x]"
  then have "set (remdups xs) = {x}" by simp
  then show "set xs = {x}" by simp
next
  assume s: "set xs = {x}"
  have "distinct (remdups xs)" "set (remdups xs) = {x}" using s by simp_all
  then show "remdups xs = [x]"
    by (metis distinct.simps(2) distinct_singleton empty_iff empty_set insert_iff list.exhaust
        list.set_intros(1) list.set_intros(2))
qed

lemma fset_of_list_cong: "set xs = set ys \<Longrightarrow> fset_of_list xs = fset_of_list ys"
  by (auto simp: fset_of_list_elem intro!: fset_eqI)

lemma unionShape_cong:
  assumes "set xs = set ys"
  shows "unionShape xs = unionShape ys"
proof (cases "\<exists>x. set xs = {x}")
  case True
  then obtain x where "set xs = {x}" by blast
  then have "remdups xs = [x]" "remdups ys = [x]"
    using assms by (simp_all add: remdups_singleton_iff)
  then show ?thesis by (simp add: unionShape_def)
next
  case False
  then have "\<And>x. remdups xs \<noteq> [x]" "\<And>x. remdups ys \<noteq> [x]"
    using assms by (auto simp: remdups_singleton_iff)
  then have "unionShape xs = SUnion (fset_of_list xs)" "unionShape ys = SUnion (fset_of_list ys)"
    by (auto simp: unionShape_def split: list.splits)
  then show ?thesis using fset_of_list_cong [OF assms] by simp
qed

lemma unionShape_single [simp]: "unionShape [x] = x"
  by (simp add: unionShape_def)

section \<open>Structural equality is symmetric and refines the shape\<close>

lemma areTypesEqual_every_shape:
  assumes "areTypesEqual_every ts us" "length ts = length us"
    and "\<And>t u. t \<in> set ts \<Longrightarrow> u \<in> set us \<Longrightarrow> areTypesEqual t u \<Longrightarrow> f t = f u"
  shows "map f ts = map f us"
  using assms
proof (induction ts arbitrary: us)
  case (Cons t ts)
  then obtain u us' where "us = u # us'" by (cases us) auto
  then show ?case using Cons by auto
qed simp

lemma areTypesEqual_every_sym:
  assumes "areTypesEqual_every ts us" "length ts = length us"
    and "\<And>t u. t \<in> set ts \<Longrightarrow> u \<in> set us \<Longrightarrow> areTypesEqual t u \<Longrightarrow> areTypesEqual u t"
  shows "areTypesEqual_every us ts"
  using assms
proof (induction ts arbitrary: us)
  case (Cons t ts)
  then obtain u us' where "us = u # us'" by (cases us) auto
  then show ?case using Cons by auto
qed simp

lemma areTypesEqual_fields_I:
  "(\<And>k t r. (k, t, r) \<in> set xs \<Longrightarrow> \<exists>tb. map_of fb k = Some (tb, r) \<and> areTypesEqual t tb)
   \<Longrightarrow> areTypesEqual_fields xs fb"
proof (induction xs)
  case (Cons e xs)
  obtain k t r where e: "e = (k, t, r)" by (cases e)
  from Cons.prems [of k t r] e obtain tb where "map_of fb k = Some (tb, r)" "areTypesEqual t tb"
    by auto
  moreover have "areTypesEqual_fields xs fb" using Cons by auto
  ultimately show ?case using e by simp
qed simp

text \<open>
  Two equal object nodes with distinct keys: every entry of the right one is matched
  by an entry of the left one.
\<close>

lemma areTypesEqual_objects_converse:
  assumes eq: "areTypesEqual (ObjectT fa) (ObjectT fb)"
    and da: "distinct (map fst fa)" and db: "distinct (map fst fb)"
    and mem: "(k, tb, rb) \<in> set fb"
  shows "\<exists>ta. (k, ta, rb) \<in> set fa \<and> areTypesEqual ta tb"
proof -
  from eq have fields: "areTypesEqual_fields fa fb" by (auto split: if_splits)
  have "k \<in> fst ` set fb" using mem by force
  then have "k \<in> fst ` set fa" using areTypesEqual_objects_keys [OF eq da] by simp
  then obtain ta ra where a: "(k, ta, ra) \<in> set fa" by auto
  from areTypesEqual_fields_D [OF fields a] obtain tb' where
    "map_of fb k = Some (tb', ra)" "areTypesEqual ta tb'" by blast
  moreover have "map_of fb k = Some (tb, rb)" using db mem by simp
  ultimately show ?thesis using a by auto
qed

lemma areTypesEqual_shape:
  "wellFormedMaps a \<Longrightarrow> wellFormedMaps b \<Longrightarrow> areTypesEqual a b \<Longrightarrow> shapeOf a = shapeOf b"
proof (induction a arbitrary: b rule: TypeNode_induct)
  case (StringT d e s)
  then show ?case by (cases b) auto
next
  case (ArrayT t)
  then show ?case by (cases b) auto
next
  case (UnionT ts)
  then obtain us where b: "b = UnionT us" by (cases b) auto
  have "map shapeOf ts = map shapeOf us"
  proof (rule areTypesEqual_every_shape)
    show "areTypesEqual_every ts us" "length ts = length us" using UnionT.prems b by auto
    show "shapeOf t = shapeOf u" if "t \<in> set ts" "u \<in> set us" "areTypesEqual t u" for t u
      using UnionT.IH [OF that(1), of u] UnionT.prems b that by auto
  qed
  then show ?case using b by simp
next
  case (ObjectT fa)
  then obtain fb where b: "b = ObjectT fb" by (cases b) auto
  have eq: "areTypesEqual (ObjectT fa) (ObjectT fb)" using ObjectT.prems b by simp
  then have fields: "areTypesEqual_fields fa fb" by (auto split: if_splits)
  have da: "distinct (map fst fa)" and db: "distinct (map fst fb)"
    using ObjectT.prems b by auto
  have wa: "wellFormedMaps t" if "(k, t, r) \<in> set fa" for k t r
    using ObjectT.prems(1) that by auto
  have wb: "wellFormedMaps t" if "(k, t, r) \<in> set fb" for k t r
    using ObjectT.prems(2) b that by auto
  let ?f = "\<lambda>(k, t, r). (k, shapeOf t, r)"
  have "set (map ?f fa) = set (map ?f fb)"
  proof (intro equalityI subsetI)
    fix x assume "x \<in> set (map ?f fa)"
    then obtain k t r where x: "x = (k, shapeOf t, r)" and m: "(k, t, r) \<in> set fa" by auto
    from areTypesEqual_fields_D [OF fields m] obtain tb where
      tb: "map_of fb k = Some (tb, r)" "areTypesEqual t tb" by blast
    then have mb: "(k, tb, r) \<in> set fb" by (simp add: map_of_SomeD)
    have "shapeOf t = shapeOf tb"
      using ObjectT.IH [OF m wa [OF m] wb [OF mb] tb(2)] .
    then show "x \<in> set (map ?f fb)" using x mb by force
  next
    fix x assume "x \<in> set (map ?f fb)"
    then obtain k tb rb where x: "x = (k, shapeOf tb, rb)" and mb: "(k, tb, rb) \<in> set fb" by auto
    from areTypesEqual_objects_converse [OF eq da db mb] obtain ta where
      ta: "(k, ta, rb) \<in> set fa" "areTypesEqual ta tb" by blast
    have "shapeOf ta = shapeOf tb"
      using ObjectT.IH [OF ta(1) wa [OF ta(1)] wb [OF mb] ta(2)] .
    then show "x \<in> set (map ?f fa)" using x ta(1) by force
  qed
  then have "fset_of_list (map ?f fa) = fset_of_list (map ?f fb)"
    by (rule fset_of_list_cong)
  then show ?case using b by (simp only: shapeOf.simps)
qed (auto dest: kind_cases simp: kind_AnyT_iff)

lemma areTypesEqual_sym:
  "wellFormedMaps a \<Longrightarrow> wellFormedMaps b \<Longrightarrow> areTypesEqual a b \<Longrightarrow> areTypesEqual b a"
proof (induction a arbitrary: b rule: TypeNode_induct)
  case (StringT d e s)
  then show ?case by (cases b) auto
next
  case (ArrayT t)
  then show ?case by (cases b) auto
next
  case (UnionT ts)
  then obtain us where b: "b = UnionT us" by (cases b) auto
  have "areTypesEqual_every us ts"
  proof (rule areTypesEqual_every_sym)
    show "areTypesEqual_every ts us" "length ts = length us" using UnionT.prems b by auto
    show "areTypesEqual u t" if "t \<in> set ts" "u \<in> set us" "areTypesEqual t u" for t u
      using UnionT.IH [OF that(1), of u] UnionT.prems b that by auto
  qed
  then show ?case using b UnionT.prems by simp
next
  case (ObjectT fa)
  then obtain fb where b: "b = ObjectT fb" by (cases b) auto
  have eq: "areTypesEqual (ObjectT fa) (ObjectT fb)" using ObjectT.prems b by simp
  have da: "distinct (map fst fa)" and db: "distinct (map fst fb)"
    using ObjectT.prems b by auto
  have wa: "wellFormedMaps t" if "(k, t, r) \<in> set fa" for k t r
    using ObjectT.prems(1) that by auto
  have wb: "wellFormedMaps t" if "(k, t, r) \<in> set fb" for k t r
    using ObjectT.prems(2) b that by auto
  have "areTypesEqual_fields fb fa"
  proof (rule areTypesEqual_fields_I)
    fix k tb rb assume mb: "(k, tb, rb) \<in> set fb"
    from areTypesEqual_objects_converse [OF eq da db mb] obtain ta where
      ta: "(k, ta, rb) \<in> set fa" "areTypesEqual ta tb" by blast
    have "areTypesEqual tb ta"
      using ObjectT.IH [OF ta(1) wa [OF ta(1)] wb [OF mb] ta(2)] .
    moreover have "map_of fa k = Some (ta, rb)" using da ta(1) by simp
    ultimately show "\<exists>t. map_of fa k = Some (t, rb) \<and> areTypesEqual tb t" by blast
  qed
  moreover have "length fa = length fb" using eq by (auto split: if_splits)
  ultimately show ?case using b by simp
qed (auto dest: kind_cases simp: kind_AnyT_iff)
section \<open>The shape of a normalized union\<close>

lemma wellFormedNode_maps: "wellFormedNode t \<Longrightarrow> wellFormedMaps t"
  by (simp add: wellFormedNode_def)

lemma shape_normalize_flat:
  assumes "\<forall>t \<in> set acc. wellFormedMaps t" and "\<forall>t \<in> set (flattened ts). wellFormedMaps t"
  shows "shapeOf ` set (foldl normalize_push acc ts) = shapeOf ` (set acc \<union> set (flattened ts))"
  using assms
proof (induction ts arbitrary: acc)
  case (Cons t ts)
  have rest: "\<forall>u \<in> set (flattened ts). wellFormedMaps u" using Cons.prems(2) by simp
  show ?case
  proof (cases "kind t = KUnion")
    case True
    then have push: "normalize_push acc t = acc @ types t" by (simp add: normalize_push_def)
    have "\<forall>u \<in> set (acc @ types t). wellFormedMaps u"
      using Cons.prems True by auto
    from Cons.IH [OF this rest] show ?thesis
      using push True by (simp add: Un_assoc)
  next
    case nu: False
    then have wt: "wellFormedMaps t" using Cons.prems(2) by simp
    show ?thesis
    proof (cases "list_ex (\<lambda>e. areTypesEqual e t) acc")
      case False
      then have push: "normalize_push acc t = acc @ [t]" using nu by (simp add: normalize_push_def)
      have "\<forall>u \<in> set (acc @ [t]). wellFormedMaps u"
        using Cons.prems(1) wt by auto
      from Cons.IH [OF this rest] show ?thesis
        using push nu by (simp add: Un_assoc)
    next
      case True
      then have push: "normalize_push acc t = acc" using nu by (simp add: normalize_push_def)
      from True obtain e where e: "e \<in> set acc" "areTypesEqual e t"
        by (auto simp: list_ex_iff)
      then have "shapeOf e = shapeOf t"
        using areTypesEqual_shape Cons.prems(1) wt by blast
      then have "shapeOf t \<in> shapeOf ` set acc"
        using e(1) by (metis imageI)
      then have "shapeOf ` set acc = shapeOf ` (set acc \<union> {t})"
        by auto
      then have "shapeOf ` (set acc \<union> set (flattened ts)) =
                 shapeOf ` (set acc \<union> set (flattened (t # ts)))"
        using nu by (auto simp: image_Un)
      with Cons.IH [OF Cons.prems(1) rest] show ?thesis
        using push by simp
    qed
  qed
qed simp

lemma shape_normalize:
  assumes "\<not> list_ex (\<lambda>t. kind t = KAny) ts" and "\<forall>t \<in> set (flattened ts). wellFormedMaps t"
  shows "shapeOf (normalizeUnionType ts) = unionShape (map shapeOf (flattened ts))"
proof -
  let ?flat = "foldl normalize_push [] ts"
  have s: "set (map shapeOf ?flat) = set (map shapeOf (flattened ts))"
    using shape_normalize_flat [of "[]" ts] assms(2) by (simp del: flattened_simps)
  have "shapeOf (normalizeUnionType ts) = unionShape (map shapeOf ?flat)"
  proof (cases "length ?flat = 1")
    case True
    then obtain x where x: "?flat = [x]" by (cases ?flat) auto
    then show ?thesis using assms(1) by (simp add: normalizeUnionType_def)
  next
    case False
    then show ?thesis using assms(1) by (simp add: normalizeUnionType_def)
  qed
  then show ?thesis using unionShape_cong [OF s] by simp
qed

lemma flattened_no_union: "\<forall>t \<in> set ts. kind t \<noteq> KUnion \<Longrightarrow> flattened ts = ts"
  by (induction ts) auto

lemma set_map_filter_entries:
  "set (List.map_filter (\<lambda>k. map_option (Pair k) (g k)) ks) = {(k, v). k \<in> set ks \<and> g k = Some v}"
  by (induction ks) (auto simp: List.map_filter_simps split: option.splits)

lemma orEmpty_merge:
  "set (orEmpty (mergeStringLiteralSets e e')) = set (orEmpty e) \<union> set (orEmpty e')"
  by (cases e; cases e') (simp_all add: mergeStringLiteralSets_def)

section \<open>Commutativity of unification\<close>

lemma unify_commute_unions:
  assumes "wellFormedNode (UnionT ts)" "wellFormedNode (UnionT us)"
  shows "shapeOf (normalizeUnionType (ts @ [UnionT us])) = unionShape (map shapeOf (ts @ us))"
proof -
  have f: "flattened (ts @ [UnionT us]) = ts @ us"
    using assms(1) by (simp add: flattened_no_union)
  have "\<not> list_ex (\<lambda>t. kind t = KAny) (ts @ [UnionT us])"
    using assms(1) by (auto simp: list_ex_iff)
  moreover have "\<forall>t \<in> set (flattened (ts @ [UnionT us])). wellFormedMaps t"
    unfolding f using assms by (auto simp: wellFormedNode_def)
  ultimately have "shapeOf (normalizeUnionType (ts @ [UnionT us])) =
      unionShape (map shapeOf (flattened (ts @ [UnionT us])))"
    by (rule shape_normalize)
  then show ?thesis by (simp only: f)
qed

lemma unify_commute_union_node:
  assumes "wellFormedNode (UnionT ts)" "wellFormedNode b" "kind b \<noteq> KUnion" "kind b \<noteq> KAny"
  shows "shapeOf (normalizeUnionType (ts @ [b])) = unionShape (map shapeOf (b # ts))"
    and "shapeOf (normalizeUnionType (b # ts)) = unionShape (map shapeOf (b # ts))"
proof -
  have f1: "flattened (ts @ [b]) = ts @ [b]" and f2: "flattened (b # ts) = b # ts"
    using assms(1,3) by (simp_all add: flattened_no_union)
  have a1: "\<not> list_ex (\<lambda>t. kind t = KAny) (ts @ [b])" and a2: "\<not> list_ex (\<lambda>t. kind t = KAny) (b # ts)"
    using assms(1,4) by (auto simp: list_ex_iff)
  have w1: "\<forall>t \<in> set (flattened (ts @ [b])). wellFormedMaps t"
    and w2: "\<forall>t \<in> set (flattened (b # ts)). wellFormedMaps t"
    unfolding f1 f2 using assms(1,2) by (auto simp: wellFormedNode_def)
  have "unionShape (map shapeOf (ts @ [b])) = unionShape (map shapeOf (b # ts))"
    by (rule unionShape_cong) auto
  moreover have "shapeOf (normalizeUnionType (ts @ [b])) = unionShape (map shapeOf (ts @ [b]))"
    using shape_normalize [OF a1 w1] by (simp only: f1)
  ultimately show "shapeOf (normalizeUnionType (ts @ [b])) = unionShape (map shapeOf (b # ts))"
    by (rule back_subst [where P = "\<lambda>x. shapeOf (normalizeUnionType (ts @ [b])) = x", rotated])
  show "shapeOf (normalizeUnionType (b # ts)) = unionShape (map shapeOf (b # ts))"
    using shape_normalize [OF a2 w2] by (simp only: f2)
qed

lemma unify_commute_mixed:
  assumes "wellFormedNode a" "wellFormedNode b" "kind a \<noteq> KUnion" "kind a \<noteq> KAny"
    "kind b \<noteq> KUnion" "kind b \<noteq> KAny"
  shows "shapeOf (normalizeUnionType [a, b]) = shapeOf (normalizeUnionType [b, a])"
proof -
  have f: "flattened [a, b] = [a, b]" "flattened [b, a] = [b, a]"
    using assms by (simp_all add: flattened_no_union)
  have a: "\<not> list_ex (\<lambda>t. kind t = KAny) [a, b]" "\<not> list_ex (\<lambda>t. kind t = KAny) [b, a]"
    using assms by simp_all
  have w: "\<forall>t \<in> set (flattened [a, b]). wellFormedMaps t"
    "\<forall>t \<in> set (flattened [b, a]). wellFormedMaps t"
    unfolding f using assms(1,2) by (auto simp: wellFormedNode_def)
  have "unionShape (map shapeOf [a, b]) = unionShape (map shapeOf [b, a])"
    by (rule unionShape_cong) auto
  moreover have "shapeOf (normalizeUnionType [a, b]) = unionShape (map shapeOf [a, b])"
    using shape_normalize [OF a(1) w(1)] by (simp only: f)
  moreover have "shapeOf (normalizeUnionType [b, a]) = unionShape (map shapeOf [b, a])"
    using shape_normalize [OF a(2) w(2)] by (simp only: f)
  ultimately show ?thesis by (simp only:)
qed

lemma unify_commute_ArrayT:
  assumes prems: "wellFormedNode (ArrayT x)" "wellFormedNode b"
    and IH: "\<And>b. wellFormedNode x \<Longrightarrow> wellFormedNode b \<Longrightarrow> shapeOf (unifyTypes x b) = shapeOf (unifyTypes b x)"
  shows "shapeOf (unifyTypes (ArrayT x) b) = shapeOf (unifyTypes b (ArrayT x))"
proof -
  let ?a = "ArrayT x"
  have wm: "wellFormedMaps ?a" "wellFormedMaps b"
    using prems by (simp_all add: wellFormedNode_def)
  show ?thesis
  proof (cases rule: unifyTypes_cases [where a = ?a and b = b])
    case equal
    then have "unifyTypes b ?a = b" using areTypesEqual_sym [OF wm] unifyTypes_equal by blast
    then show ?thesis using equal areTypesEqual_shape [OF wm] by simp
  next
    case any
    then show ?thesis using unifyTypes_any [of b ?a] by auto
  next
    case (unionL ts)
    then show ?thesis by simp
  next
    case (unionR us)
    have ne: "\<not> areTypesEqual (UnionT us) ?a" by simp
    have "unifyTypes (UnionT us) ?a = normalizeUnionType (us @ [?a])"
      by (rule unifyTypes_unionL [OF ne]) simp
    then show ?thesis
      using unionR unify_commute_union_node [of us ?a] prems by simp
  next
    case (string d e s d' e' s')
    then show ?thesis by simp
  next
    case (array x' y)
    then have ne: "\<not> areTypesEqual (ArrayT y) (ArrayT x)"
      using areTypesEqual_sym [OF wm(2,1)] by auto
    have "shapeOf (unifyTypes x y) = shapeOf (unifyTypes y x)"
      using IH [of y] prems array by simp
    then show ?thesis
      using array unifyTypes_arrays [OF ne] by simp
  next
    case (object fa fb)
    then show ?thesis by simp
  next
    case mixed
    then have "unifyTypes b ?a = normalizeUnionType [b, ?a]"
      using unifyTypes_mixed [of b ?a] by simp
    then show ?thesis
      using mixed unify_commute_mixed [of ?a b] prems by simp
  qed
qed

lemma unify_commute_UnionT:
  assumes prems: "wellFormedNode (UnionT ts)" "wellFormedNode b"
  shows "shapeOf (unifyTypes (UnionT ts) b) = shapeOf (unifyTypes b (UnionT ts))"
proof -
  let ?a = "UnionT ts"
  have wm: "wellFormedMaps ?a" "wellFormedMaps b"
    using prems by (simp_all add: wellFormedNode_def)
  show ?thesis
  proof (cases rule: unifyTypes_cases [where a = ?a and b = b])
    case equal
    then have "unifyTypes b ?a = b" using areTypesEqual_sym [OF wm] unifyTypes_equal by blast
    then show ?thesis using equal areTypesEqual_shape [OF wm] by simp
  next
    case any
    then show ?thesis using unifyTypes_any [of b ?a] by auto
  next
    case (unionL ts')
    then have ne: "\<not> areTypesEqual b ?a"
      using areTypesEqual_sym [OF wm(2,1)] by auto
    show ?thesis
    proof (cases "kind b = KUnion")
      case True
      then obtain us where b: "b = UnionT us" using kind_cases(3) by blast
      have "unifyTypes (UnionT us) ?a = normalizeUnionType (us @ [?a])"
        using unifyTypes_unionL [of us ?a] ne b by simp
      moreover have "unionShape (map shapeOf (ts @ us)) = unionShape (map shapeOf (us @ ts))"
        by (rule unionShape_cong) auto
      ultimately show ?thesis
        using unionL b unify_commute_unions [of ts us] unify_commute_unions [of us ts] prems
        by simp
    next
      case False
      have nb: "kind b \<noteq> KAny" using unionL(3) by (simp add: kind_AnyT_iff)
      have "unifyTypes b ?a = normalizeUnionType (b # ts)"
        using unifyTypes_unionR [of b ts] ne unionL(3) False by simp
      then show ?thesis
        using unionL unify_commute_union_node [of ts b] prems False nb by simp
    qed
  qed simp_all
qed

lemma shape_entries_cong:
  assumes "\<And>k t r. (k, t, r) \<in> set xs \<Longrightarrow> \<exists>t'. (k, t', r) \<in> set ys \<and> shapeOf t' = shapeOf t"
    and "\<And>k t r. (k, t, r) \<in> set ys \<Longrightarrow> \<exists>t'. (k, t', r) \<in> set xs \<and> shapeOf t' = shapeOf t"
  shows "fset_of_list (map (\<lambda>(k, t, r). (k, shapeOf t, r)) xs) =
         fset_of_list (map (\<lambda>(k, t, r). (k, shapeOf t, r)) ys)"
proof (rule fset_of_list_cong, intro equalityI subsetI)
  fix x assume "x \<in> set (map (\<lambda>(k, t, r). (k, shapeOf t, r)) xs)"
  then obtain k t r where x: "x = (k, shapeOf t, r)" and m: "(k, t, r) \<in> set xs" by auto
  from assms(1) [OF m] obtain t' where "(k, t', r) \<in> set ys" "shapeOf t' = shapeOf t" by blast
  then show "x \<in> set (map (\<lambda>(k, t, r). (k, shapeOf t, r)) ys)" using x by force
next
  fix x assume "x \<in> set (map (\<lambda>(k, t, r). (k, shapeOf t, r)) ys)"
  then obtain k t r where x: "x = (k, shapeOf t, r)" and m: "(k, t, r) \<in> set ys" by auto
  from assms(2) [OF m] obtain t' where "(k, t', r) \<in> set xs" "shapeOf t' = shapeOf t" by blast
  then show "x \<in> set (map (\<lambda>(k, t, r). (k, shapeOf t, r)) xs)" using x by force
qed

lemma unify_commute_ObjectT:
  assumes prems: "wellFormedNode (ObjectT fa)" "wellFormedNode b"
    and IH: "\<And>k t r b. (k, t, r) \<in> set fa \<Longrightarrow> wellFormedNode t \<Longrightarrow> wellFormedNode b \<Longrightarrow> shapeOf (unifyTypes t b) = shapeOf (unifyTypes b t)"
  shows "shapeOf (unifyTypes (ObjectT fa) b) = shapeOf (unifyTypes b (ObjectT fa))"
proof -
  let ?a = "ObjectT fa"
  have wm: "wellFormedMaps ?a" "wellFormedMaps b"
    using prems by (simp_all add: wellFormedNode_def)
  show ?thesis
  proof (cases rule: unifyTypes_cases [where a = ?a and b = b])
    case equal
    then have "unifyTypes b ?a = b" using areTypesEqual_sym [OF wm] unifyTypes_equal by blast
    then show ?thesis using equal areTypesEqual_shape [OF wm] by simp
  next
    case any
    then show ?thesis using unifyTypes_any [of b ?a] by auto
  next
    case (unionL ts)
    then show ?thesis by simp
  next
    case (unionR us)
    have ne: "\<not> areTypesEqual (UnionT us) ?a" by simp
    have "unifyTypes (UnionT us) ?a = normalizeUnionType (us @ [?a])"
      by (rule unifyTypes_unionL [OF ne]) simp
    then show ?thesis
      using unionR unify_commute_union_node [of us ?a] prems by simp
  next
    case (string d e s d' e' s')
    then show ?thesis by simp
  next
    case (array x y)
    then show ?thesis by simp
  next
    case (object fa' fb)
    then have fa': "fa' = fa" and b: "b = ObjectT fb" by simp_all
    have ne: "\<not> areTypesEqual (ObjectT fb) (ObjectT fa)"
      using object(1) areTypesEqual_sym [OF wm(2,1)] b by auto
    define ab where "ab = List.map_filter (\<lambda>k. map_option (Pair k) (unifiedField fa fb k))
                 (Set_from (map fst fa @ map fst fb))"
    define ba where "ba = List.map_filter (\<lambda>k. map_option (Pair k) (unifiedField fb fa k))
                 (Set_from (map fst fb @ map fst fa))"
    have set_ab: "(k, v) \<in> set ab \<longleftrightarrow> unifiedField fa fb k = Some v" for k v
      using unifiedField_None_iff [of fa fb k]
      by (auto simp: ab_def set_map_filter_entries)
    have set_ba: "(k, v) \<in> set ba \<longleftrightarrow> unifiedField fb fa k = Some v" for k v
      using unifiedField_None_iff [of fb fa k]
      by (auto simp: ba_def set_map_filter_entries)
    have wa: "wellFormedNode t" if "map_of fa k = Some (t, r)" for k t r
      using map_of_SomeD [OF that] prems(1) by auto
    have wb: "wellFormedNode t" if "map_of fb k = Some (t, r)" for k t r
      using map_of_SomeD [OF that] prems(2) b by auto
    have field: "\<exists>t' r'. unifiedField fb fa k = Some (t', r') \<and> shapeOf t' = shapeOf t \<and> r' = r"
      if u: "unifiedField fa fb k = Some (t, r)" for k t r
    proof (cases "map_of fa k")
      case None
      then show ?thesis using u by (auto simp: unifiedField_def split: option.splits)
    next
      case a: (Some pa)
      obtain ta ra where pa: "pa = (ta, ra)" by (cases pa)
      show ?thesis
      proof (cases "map_of fb k")
        case None
        then show ?thesis using u a by (auto simp: unifiedField_def split: option.splits)
      next
        case bb: (Some pb)
        obtain tb rb where pb: "pb = (tb, rb)" by (cases pb)
        have "(k, ta, ra) \<in> set fa" using a pa by (simp add: map_of_SomeD)
        then have "shapeOf (unifyTypes ta tb) = shapeOf (unifyTypes tb ta)"
          using IH [of k ta ra tb] a pa bb pb wa wb by blast
        then show ?thesis using u a pa bb pb by (auto simp: unifiedField_def)
      qed
    qed
    have field': "\<exists>t r'. unifiedField fa fb k = Some (t, r') \<and> shapeOf t = shapeOf t' \<and> r' = r"
      if u: "unifiedField fb fa k = Some (t', r)" for k t' r
    proof -
      have "unifiedField fb fa k = None \<longleftrightarrow> unifiedField fa fb k = None"
        by (simp only: unifiedField_None_iff conj_commute)
      with u have "unifiedField fa fb k \<noteq> None" by simp
      then obtain t r0 where v: "unifiedField fa fb k = Some (t, r0)" by auto
      from field [OF v] obtain t'' r'' where
        "unifiedField fb fa k = Some (t'', r'')" "shapeOf t'' = shapeOf t" "r'' = r0"
        by blast
      with u v show ?thesis by simp
    qed
    have "fset_of_list (map (\<lambda>(k, t, r). (k, shapeOf t, r)) ab) =
          fset_of_list (map (\<lambda>(k, t, r). (k, shapeOf t, r)) ba)"
    proof (rule shape_entries_cong)
      fix k t r assume "(k, t, r) \<in> set ab"
      then have "unifiedField fa fb k = Some (t, r)" by (simp only: set_ab)
      from field [OF this] show "\<exists>t'. (k, t', r) \<in> set ba \<and> shapeOf t' = shapeOf t"
        by (auto simp only: set_ba)
    next
      fix k t r assume "(k, t, r) \<in> set ba"
      then have "unifiedField fb fa k = Some (t, r)" by (simp only: set_ba)
      from field' [OF this] show "\<exists>t'. (k, t', r) \<in> set ab \<and> shapeOf t' = shapeOf t"
        by (auto simp only: set_ab)
    qed
    moreover have "unifyTypes (ObjectT fa) b = ObjectT ab"
      using object(4) fa' by (simp only: ab_def)
    moreover have "unifyTypes b (ObjectT fa) = ObjectT ba"
      using unifyTypes_objects [OF ne] b by (simp only: ba_def)
    ultimately show ?thesis
      by (simp only: shapeOf.simps)
  next
    case mixed
    then have "unifyTypes b ?a = normalizeUnionType [b, ?a]"
      using unifyTypes_mixed [of b ?a] by simp
    then show ?thesis
      using mixed unify_commute_mixed [of ?a b] prems by simp
  qed
qed

lemma unify_commute_AnyT:
  assumes prems: "wellFormedNode (AnyT)" "wellFormedNode b"
  shows "shapeOf (unifyTypes (AnyT) b) = shapeOf (unifyTypes b (AnyT))"
  using unifyTypes_any [of AnyT b] unifyTypes_any [of b AnyT] by simp

lemma unify_commute_NumberT:
  assumes prems: "wellFormedNode (NumberT)" "wellFormedNode b"
  shows "shapeOf (unifyTypes (NumberT) b) = shapeOf (unifyTypes b (NumberT))"
proof -
  let ?a = "NumberT"
  have wm: "wellFormedMaps ?a" "wellFormedMaps b"
    using prems by (simp_all add: wellFormedNode_def)
  show ?thesis
  proof (cases rule: unifyTypes_cases [where a = ?a and b = b])
    case equal
    then have "unifyTypes b ?a = b" using areTypesEqual_sym [OF wm] unifyTypes_equal by blast
    then show ?thesis using equal areTypesEqual_shape [OF wm] by simp
  next
    case any
    then show ?thesis using unifyTypes_any [of b ?a] by auto
  next
    case (unionR us)
    have ne: "\<not> areTypesEqual (UnionT us) ?a" by simp
    have "unifyTypes (UnionT us) ?a = normalizeUnionType (us @ [?a])"
      by (rule unifyTypes_unionL [OF ne]) simp
    then show ?thesis
      using unionR unify_commute_union_node [of us ?a] prems by simp
  next
    case mixed
    then have "unifyTypes b ?a = normalizeUnionType [b, ?a]"
      using unifyTypes_mixed [of b ?a] by simp
    then show ?thesis
      using mixed unify_commute_mixed [of ?a b] prems by simp
  qed simp_all
qed

lemma unify_commute_BooleanT:
  assumes prems: "wellFormedNode (BooleanT)" "wellFormedNode b"
  shows "shapeOf (unifyTypes (BooleanT) b) = shapeOf (unifyTypes b (BooleanT))"
proof -
  let ?a = "BooleanT"
  have wm: "wellFormedMaps ?a" "wellFormedMaps b"
    using prems by (simp_all add: wellFormedNode_def)
  show ?thesis
  proof (cases rule: unifyTypes_cases [where a = ?a and b = b])
    case equal
    then have "unifyTypes b ?a = b" using areTypesEqual_sym [OF wm] unifyTypes_equal by blast
    then show ?thesis using equal areTypesEqual_shape [OF wm] by simp
  next
    case any
    then show ?thesis using unifyTypes_any [of b ?a] by auto
  next
    case (unionR us)
    have ne: "\<not> areTypesEqual (UnionT us) ?a" by simp
    have "unifyTypes (UnionT us) ?a = normalizeUnionType (us @ [?a])"
      by (rule unifyTypes_unionL [OF ne]) simp
    then show ?thesis
      using unionR unify_commute_union_node [of us ?a] prems by simp
  next
    case mixed
    then have "unifyTypes b ?a = normalizeUnionType [b, ?a]"
      using unifyTypes_mixed [of b ?a] by simp
    then show ?thesis
      using mixed unify_commute_mixed [of ?a b] prems by simp
  qed simp_all
qed

lemma unify_commute_StringT:
  assumes prems: "wellFormedNode (StringT d e s)" "wellFormedNode b"
  shows "shapeOf (unifyTypes (StringT d e s) b) = shapeOf (unifyTypes b (StringT d e s))"
proof -
  let ?a = "StringT d e s"
  have wm: "wellFormedMaps ?a" "wellFormedMaps b"
    using prems by (simp_all add: wellFormedNode_def)
  show ?thesis
  proof (cases rule: unifyTypes_cases [where a = ?a and b = b])
    case equal
    then have "unifyTypes b ?a = b" using areTypesEqual_sym [OF wm] unifyTypes_equal by blast
    then show ?thesis using equal areTypesEqual_shape [OF wm] by simp
  next
    case any
    then show ?thesis using unifyTypes_any [of b ?a] by auto
  next
    case (unionR us)
    have ne: "\<not> areTypesEqual (UnionT us) ?a" by simp
    have "unifyTypes (UnionT us) ?a = normalizeUnionType (us @ [?a])"
      by (rule unifyTypes_unionL [OF ne]) simp
    then show ?thesis
      using unionR unify_commute_union_node [of us ?a] prems by simp
  next
    case (string d0 e0 s0 d' e' s')
    then have ne: "\<not> areTypesEqual (StringT d' e' s') (StringT d e s)"
      using areTypesEqual_sym [OF wm(2,1)] by auto
    have "fset_of_list (orEmpty (mergeStringLiteralSets e e')) =
          fset_of_list (orEmpty (mergeStringLiteralSets e' e))"
      by (rule fset_of_list_cong) (auto simp: orEmpty_merge)
    then show ?thesis
      using string unifyTypes_strings [OF ne] by (auto simp: disj_commute)
  next
    case mixed
    then have "unifyTypes b ?a = normalizeUnionType [b, ?a]"
      using unifyTypes_mixed [of b ?a] by simp
    then show ?thesis
      using mixed unify_commute_mixed [of ?a b] prems by simp
  qed simp_all
qed

text \<open>
  Claim C3, as stated, fails: \<open>unifyTypes\<close> of a string node and the number node is
  the union \<open>string | number\<close>, in the other order it is \<open>number | string\<close>, and
  \<open>areTypesEqual\<close> compares the members of two unions position by position.
  Likewise the enum values merged from \<open>["a"]\<close> and \<open>["b"]\<close> are \<open>["a", "b"]\<close>
  one way and \<open>["b", "a"]\<close> the other way, which are not structurally equal.
\<close>

theorem unify_commutative_counterexample:
  "\<not> areTypesEqual (unifyTypes (StringT (Some False) None (Some ''x'')) NumberT)
                    (unifyTypes NumberT (StringT (Some False) None (Some ''x''))) \<and>
   \<not> areTypesEqual (unifyTypes (StringT None (Some [''a'']) None) (StringT None (Some [''b'']) None))
                    (unifyTypes (StringT None (Some [''b'']) None) (StringT None (Some [''a'']) None))"
  by (simp add: unifyTypes.simps normalizeUnionType_def normalize_push_def
      mergeStringLiteralSets_def Set_from_def Set_add_def)

text \<open>
  Claim C3, amended. For all well-formed type nodes \<open>a\<close> and \<open>b\<close> (the nodes
  the inference and the unification produce), \<open>unifyTypes a b\<close> and
  \<open>unifyTypes b a\<close> have the same shape: they are equal once the members of a union
  and the enum values of a string node are compared as sets and the fields of an
  object by key. They need not be structurally equal in the sense of
  \<open>areTypesEqual\<close>, which compares union members and enum values in order.
\<close>

theorem unify_commutative_up_to_shape:
  "wellFormedNode a \<Longrightarrow> wellFormedNode b \<Longrightarrow>
   shapeOf (unifyTypes a b) = shapeOf (unifyTypes b a)"
proof (induction a arbitrary: b rule: TypeNode_induct)
  case (ArrayT x)
  show ?case
    by (rule unify_commute_ArrayT [OF ArrayT.prems]) (use ArrayT.IH in simp)
next
  case (ObjectT fa)
  show ?case
    by (rule unify_commute_ObjectT [OF ObjectT.prems]) (use ObjectT.IH in blast)
qed (simp_all add: unify_commute_AnyT unify_commute_NumberT unify_commute_BooleanT
      unify_commute_StringT unify_commute_UnionT)

theorem unify_commutative_up_to_shape_witness:
  "wellFormedNode (UnionT [NumberT, StringT (Some False) None (Some ''x'')]) \<and>
   wellFormedNode (ObjectT [(''id'', NumberT, True)]) \<and>
   shapeOf (unifyTypes (UnionT [NumberT, StringT (Some False) None (Some ''x'')])
                       (ObjectT [(''id'', NumberT, True)])) =
   shapeOf (unifyTypes (ObjectT [(''id'', NumberT, True)])
                       (UnionT [NumberT, StringT (Some False) None (Some ''x'')]))"
proof -
  have ha: "wellFormedNode (UnionT [NumberT, StringT (Some False) None (Some ''x'')])"
    by simp
  have hb: "wellFormedNode (ObjectT [(''id'', NumberT, True)])"
    by simp
  show ?thesis
    using ha hb unify_commutative_up_to_shape [OF ha hb] by blast
qed

section \<open>Consistency of the comparison functions\<close>

lemma compareWeights_total: "compareWeights xs ys \<le> 0 \<or> compareWeights ys xs \<le> 0"
  by (induction xs ys rule: compareWeights.induct) auto

lemma compareWeights_trans:
  "compareWeights xs ys \<le> 0 \<Longrightarrow> compareWeights ys zs \<le> 0 \<Longrightarrow> compareWeights xs zs \<le> 0"
proof (induction xs arbitrary: ys zs)
  case Nil
  then show ?case by (cases zs) auto
next
  case (Cons x xs)
  then obtain y ys' where ys: "ys = y # ys'" by (cases ys) auto
  with Cons.prems obtain z zs' where zs: "zs = z # zs'" by (cases zs) auto
  have xy: "x \<le> y" and yz: "y \<le> z"
    using Cons.prems ys zs by (auto split: if_splits)
  show ?case
  proof (cases "x < z")
    case True
    then show ?thesis using zs by simp
  next
    case False
    with xy yz have eq: "x = y" "y = z" by simp_all
    then have "compareWeights xs ys' \<le> 0" "compareWeights ys' zs' \<le> 0"
      using Cons.prems ys zs by simp_all
    then have "compareWeights xs zs' \<le> 0" by (rule Cons.IH)
    then show ?thesis using eq zs by simp
  qed
qed

lemma consistentComparator_key: "consistentComparator (\<lambda>a b. compareWeights (key a) (key b))"
  unfolding consistentComparator_def
  using compareWeights_total compareWeights_trans by blast

lemma consistentComparator_alphabeticCollation: "consistentComparator alphabeticCollation"
  using consistentComparator_key [of collationKey]
  by (simp add: alphabeticCollation_def [abs_def])

section \<open>Sorting under a consistent comparison\<close>

lemma mset_insertBy: "mset (insertBy cmp x xs) = add_mset x (mset xs)"
  by (induction xs) auto

lemma mset_Array_sort: "mset (Array_sort cmp xs) = mset xs"
  unfolding Array_sort_def by (induction xs) (auto simp: mset_insertBy)

lemma set_insertBy: "set (insertBy cmp x xs) = insert x (set xs)"
  by (induction xs) auto

lemma consistentComparator_total:
  "consistentComparator cmp \<Longrightarrow> cmp a b \<le> 0 \<or> cmp b a \<le> 0"
  unfolding consistentComparator_def by blast

lemma consistentComparator_trans:
  "consistentComparator cmp \<Longrightarrow> cmp a b \<le> 0 \<Longrightarrow> cmp b c \<le> 0 \<Longrightarrow> cmp a c \<le> 0"
  unfolding consistentComparator_def by blast

lemma consistentComparator_on:
  "consistentComparator cmp \<Longrightarrow> consistentComparator (\<lambda>a b. cmp (f a) (f b))"
  unfolding consistentComparator_def by blast

lemma sorted_insertBy:
  assumes c: "consistentComparator cmp"
    and s: "sorted_wrt (\<lambda>a b. cmp a b \<le> 0) xs"
  shows "sorted_wrt (\<lambda>a b. cmp a b \<le> 0) (insertBy cmp x xs)"
  using s
proof (induction xs)
  case Nil
  show ?case by simp
next
  case (Cons y ys)
  have tail: "sorted_wrt (\<lambda>a b. cmp a b \<le> 0) ys"
    and head: "\<And>z. z \<in> set ys \<Longrightarrow> cmp y z \<le> 0"
    using Cons.prems by simp_all
  show ?case
  proof (cases "cmp x y \<le> 0")
    case True
    have "cmp x z \<le> 0" if "z \<in> set ys" for z
      using consistentComparator_trans [OF c True head [OF that]] .
    then have "sorted_wrt (\<lambda>a b. cmp a b \<le> 0) (x # y # ys)"
      using True head tail by simp
    moreover have "insertBy cmp x (y # ys) = x # y # ys"
      using True by simp
    ultimately show ?thesis by (simp only:)
  next
    case False
    then have yx: "cmp y x \<le> 0"
      using consistentComparator_total [OF c, of x y] by blast
    have ih: "sorted_wrt (\<lambda>a b. cmp a b \<le> 0) (insertBy cmp x ys)"
      using Cons.IH [OF tail] .
    have "cmp y z \<le> 0" if "z \<in> set (insertBy cmp x ys)" for z
    proof -
      from that have "z = x \<or> z \<in> set ys" by (simp add: set_insertBy)
      then show ?thesis using yx head by blast
    qed
    then have "sorted_wrt (\<lambda>a b. cmp a b \<le> 0) (y # insertBy cmp x ys)"
      using ih by simp
    moreover have "insertBy cmp x (y # ys) = y # insertBy cmp x ys"
      using False by simp
    ultimately show ?thesis by (simp only:)
  qed
qed

lemma sorted_Array_sort:
  assumes "consistentComparator cmp"
  shows "sorted_wrt (\<lambda>a b. cmp a b \<le> 0) (Array_sort cmp xs)"
  unfolding Array_sort_def
proof (induction xs)
  case Nil
  show ?case by simp
next
  case (Cons x xs)
  have "foldr (insertBy cmp) (x # xs) [] = insertBy cmp x (foldr (insertBy cmp) xs [])"
    by simp
  then show ?case
    using sorted_insertBy [OF assms Cons] by (simp only:)
qed

section \<open>The body of a rendered object\<close>

lemma renderTypeNode_fields_lines:
  "\<exists>tsTypes st'. length tsTypes = length fs \<and>
     renderTypeNode_fields localeCompare typeKeyword st path fs lines =
       (lines @ map2 (\<lambda>(fieldName, t, required) tsType. fieldLine fieldName required tsType)
                  fs tsTypes, st')"
proof (induction fs arbitrary: st lines)
  case Nil
  show ?case by simp
next
  case (Cons e rest)
  obtain fieldName t required where e: "e = (fieldName, t, required)" by (cases e)
  define call where "call =
     (if kind t = KObject
        then ensureNamedTypeForObject localeCompare typeKeyword st (path @ [AtField fieldName])
               t fieldName False
      else if kind t = KArray \<and> kind (items t) = KObject
        then (case ensureNamedTypeForObject localeCompare typeKeyword st
                     (path @ [AtField fieldName, AtItems]) (items t) fieldName True of
                (itemName, st1) \<Rightarrow> (itemName @ ''[]'', st1))
      else if kind t = KArray
        then renderArrayType localeCompare typeKeyword st (path @ [AtField fieldName, AtItems])
               (items t) fieldName
      else renderTypeNode localeCompare typeKeyword st (path @ [AtField fieldName]) t fieldName False)"
  obtain tsType st1 where c: "call = (tsType, st1)" by (cases call)
  have step: "renderTypeNode_fields localeCompare typeKeyword st path (e # rest) lines =
        renderTypeNode_fields localeCompare typeKeyword st1 path rest
          (lines @ [fieldLine fieldName required tsType])"
    unfolding e by (subst renderTypeNode_fields.simps) (simp only: call_def [symmetric] c prod.case)
  from Cons [of st1 "lines @ [fieldLine fieldName required tsType]"]
  obtain tsTypes st' where r: "length tsTypes = length rest"
    "renderTypeNode_fields localeCompare typeKeyword st1 path rest
          (lines @ [fieldLine fieldName required tsType]) =
       ((lines @ [fieldLine fieldName required tsType]) @
          map2 (\<lambda>(fieldName, t, required) tsType. fieldLine fieldName required tsType) rest tsTypes, st')"
    by blast
  show ?case
  proof (intro exI conjI)
    show "length (tsType # tsTypes) = length (e # rest)" using r(1) by simp
    show "renderTypeNode_fields localeCompare typeKeyword st path (e # rest) lines =
       (lines @ map2 (\<lambda>(fieldName, t, required) tsType. fieldLine fieldName required tsType)
                  (e # rest) (tsType # tsTypes), st')"
      using step r(2) e by simp
  qed
qed

text \<open>
  Claim C8, as stated, fails: the renderer sorts the fields with
  \<open>a.localeCompare(b)\<close>, the collation of the host's locale, not with an ordinal
  comparison. Under a collation that orders letters alphabetically before case, an
  object with the fields \<open>B\<close> and \<open>a\<close> is rendered with \<open>a\<close> first, although
  \<open>"a"\<close> comes after \<open>"B"\<close> in the ordinal order.
\<close>

theorem render_fields_ordinal_counterexample:
  "renderTypescriptFromTree alphabeticCollation ''T'' False
     (ObjectT [(''B'', NumberT, True), (''a'', NumberT, True)]) =
     renderHeader @ [CHR 0x0A, CHR 0x0A] @
     ''export type T = {'' @ [CHR 0x0A] @
     ''  a: number;'' @ [CHR 0x0A] @
     ''  B: number;'' @ [CHR 0x0A] @
     ''};'' @ [CHR 0x0A] \<and>
   0 < ordinalCompare ''a'' ''B''"
  by (simp add: renderTypescriptFromTree_def Array_sort_def alphabeticCollation_def
      collationKey_def toLowerAscii_def ordinalCompare_def fieldLine_def
      isValidTypescriptIdentifier_def isWordChar_def isDigit_def)

text \<open>
  Claim C8, amended. For every object node the renderer renders, under any
  consistent \<open>localeCompare\<close> (the locale-sensitive comparison of the host), the
  emitted body is the line \<open>{\<close>, one line per field and the line \<open>}\<close>; the
  lines of the fields follow the entries sorted by \<open>localeCompare\<close> on the field
  names, and the sorted entries are a rearrangement of the entries of the node,
  whatever their insertion order. The order need not be the ordinal one.
\<close>

theorem render_object_fields_sorted:
  assumes "consistentComparator localeCompare"
  shows "\<exists>tsTypes st'.
     length tsTypes = length fs \<and>
     renderTypeNode localeCompare typeKeyword st path (ObjectT fs) parentJsonKey inArray =
       (Array_join [CHR 0x0A]
          ([''{''] @
           map2 (\<lambda>(fieldName, t, required) tsType. fieldLine fieldName required tsType)
             (Array_sort (\<lambda>a b. localeCompare (fst a) (fst b)) fs) tsTypes @
           [''}'']), st') \<and>
     sorted_wrt (\<lambda>a b. localeCompare a b \<le> 0)
       (map fst (Array_sort (\<lambda>a b. localeCompare (fst a) (fst b)) fs)) \<and>
     mset (Array_sort (\<lambda>a b. localeCompare (fst a) (fst b)) fs) = mset fs"
proof -
  let ?sorted = "Array_sort (\<lambda>a b. localeCompare (fst a) (fst b)) fs"
  obtain tsTypes st' where l: "length tsTypes = length ?sorted"
    and r: "renderTypeNode_fields localeCompare typeKeyword st path ?sorted [''{''] =
       ([''{''] @ map2 (\<lambda>(fieldName, t, required) tsType. fieldLine fieldName required tsType)
                  ?sorted tsTypes, st')"
    using renderTypeNode_fields_lines [of ?sorted localeCompare typeKeyword st path "[''{'']"]
    by blast
  have m: "mset ?sorted = mset fs" by (rule mset_Array_sort)
  then have len: "length ?sorted = length fs" by (rule mset_eq_length)
  have "consistentComparator (\<lambda>a b. localeCompare (fst a) (fst b))"
    using assms by (rule consistentComparator_on)
  then have "sorted_wrt (\<lambda>a b. localeCompare (fst a) (fst b) \<le> 0) ?sorted"
    by (rule sorted_Array_sort)
  then have s: "sorted_wrt (\<lambda>a b. localeCompare a b \<le> 0) (map fst ?sorted)"
    by (simp add: sorted_wrt_map)
  have "renderTypeNode localeCompare typeKeyword st path (ObjectT fs) parentJsonKey inArray =
       (Array_join [CHR 0x0A]
          (([''{''] @ map2 (\<lambda>(fieldName, t, required) tsType. fieldLine fieldName required tsType)
             ?sorted tsTypes) @ [''}'']), st')"
    by (simp only: renderTypeNode.simps r prod.case)
  then show ?thesis using l len s m by auto
qed

theorem render_object_fields_sorted_witness:
  "consistentComparator alphabeticCollation \<and>
   (\<exists>tsTypes st'.
      length tsTypes = 2 \<and>
      renderTypeNode alphabeticCollation ''type''
        \<lparr>namedTypeDefinitions = [], objectNodeToTypeName = [], usedTypeNames = [''T'']\<rparr> []
        (ObjectT [(''B'', NumberT, True), (''a'', NumberT, True)]) ''T'' False =
        (Array_join [CHR 0x0A]
           ([''{''] @
            map2 (\<lambda>(fieldName, t, required) tsType. fieldLine fieldName required tsType)
              [(''a'', NumberT, True), (''B'', NumberT, True)] tsTypes @
            [''}'']), st'))"
proof -
  have c: "consistentComparator alphabeticCollation"
    by (rule consistentComparator_alphabeticCollation)
  have s: "Array_sort (\<lambda>a b. alphabeticCollation (fst a) (fst b))
             [(''B'', NumberT, True), (''a'', NumberT, True)] =
           [(''a'', NumberT, True), (''B'', NumberT, True)]"
    by (simp add: Array_sort_def alphabeticCollation_def collationKey_def toLowerAscii_def)
  from render_object_fields_sorted [OF c,
        of "[(''B'', NumberT, True), (''a'', NumberT, True)]" "''type''"
           "\<lparr>namedTypeDefinitions = [], objectNodeToTypeName = [], usedTypeNames = [''T'']\<rparr>"
           "[]" "''T''" False]
  obtain tsTypes st' where
    l: "length tsTypes = length [(''B'', NumberT, True), (''a'', NumberT, True)]"
    and r: "renderTypeNode alphabeticCollation ''type''
        \<lparr>namedTypeDefinitions = [], objectNodeToTypeName = [], usedTypeNames = [''T'']\<rparr> []
        (ObjectT [(''B'', NumberT, True), (''a'', NumberT, True)]) ''T'' False =
        (Array_join [CHR 0x0A]
           ([''{''] @
            map2 (\<lambda>(fieldName, t, required) tsType. fieldLine fieldName required tsType)
              (Array_sort (\<lambda>a b. alphabeticCollation (fst a) (fst b))
                 [(''B'', NumberT, True), (''a'', NumberT, True)]) tsTypes @
            [''}'']), st')"
    by blast
  from l have l2: "length tsTypes = 2" by simp
  from r have "renderTypeNode alphabeticCollation ''type''
        \<lparr>namedTypeDefinitions = [], objectNodeToTypeName = [], usedTypeNames = [''T'']\<rparr> []
        (ObjectT [(''B'', NumberT, True), (''a'', NumberT, True)]) ''T'' False =
        (Array_join [CHR 0x0A]
           ([''{''] @
            map2 (\<lambda>(fieldName, t, required) tsType. fieldLine fieldName required tsType)
              [(''a'', NumberT, True), (''B'', NumberT, True)] tsTypes @
            [''}'']), st')"
    by (simp only: s)
  with c l2 show ?thesis by blast
qed

end
